theory Spec2Isabelle
  imports Complex_Main "HOL-Library.Char_ord" "HOL-Library.List_Lexorder"
begin

section \<open>db\_bench: the benchmark harness of the key-value store\<close>

text \<open>
  A shallow embedding of \<^verbatim>\<open>db/db_bench.cc\<close>. C++ \<^verbatim>\<open>int\<close> values are
  modelled as \<open>int\<close> with the 32-bit range written out where the code can leave it;
  \<^verbatim>\<open>size_t\<close> conversions are written as \<open>mod 2 ^ 64\<close>. \<^verbatim>\<open>exit(1)\<close>, a failed
  \<^verbatim>\<open>assert\<close> (assertions are taken as compiled in) and undefined behaviour are
  values of the type \<open>fatal\<close>; a function that can end the process returns a sum.
  Not modelled: the parsing of the command line in \<^verbatim>\<open>main\<close>, the header that
  \<^verbatim>\<open>PrintHeader\<close> prints, and the removal of old heap profiles by the constructor.
\<close>

subsection \<open>C integers and printf\<close>

definition INT_MAX :: int where
  "INT_MAX = 2147483647"

definition INT_MIN :: int where
  "INT_MIN = - 2147483648"

definition in_int :: "int \<Rightarrow> bool" where
  "in_int x = (INT_MIN \<le> x \<and> x \<le> INT_MAX)"

text \<open>Conversion of a signed value to \<^verbatim>\<open>size_t\<close> (64 bits).\<close>

definition to_size_t :: "int \<Rightarrow> int" where
  "to_size_t x = x mod 2 ^ 64"

text \<open>Conversion of a signed value to \<^verbatim>\<open>uint32_t\<close>, and back to \<^verbatim>\<open>int\<close>.\<close>

definition to_uint32 :: "int \<Rightarrow> int" where
  "to_uint32 x = x mod 2 ^ 32"

definition to_int32 :: "int \<Rightarrow> int" where
  "to_int32 x = (let y = x mod 2 ^ 32 in if y < 2 ^ 31 then y else y - 2 ^ 32)"

definition digit :: "nat \<Rightarrow> char" where
  "digit d = ''0123456789'' ! d"

text \<open>The decimal digits of a natural number, most significant first.\<close>

fun dec :: "nat \<Rightarrow> string" where
  "dec n = (if n < 10 then [digit n] else dec (n div 10) @ [digit (n mod 10)])"

declare dec.simps [simp del]

text \<open>\<^verbatim>\<open>%d\<close>\<close>

definition fmt_d :: "int \<Rightarrow> string" where
  "fmt_d k = (if k < 0 then CHR ''-'' # dec (nat (- k)) else dec (nat k))"

text \<open>\<^verbatim>\<open>%0wd\<close>: the sign first, then zeros up to the width \<open>w\<close>, then the digits;
  a number wider than \<open>w\<close> is printed in full.\<close>

definition fmt_0d :: "nat \<Rightarrow> int \<Rightarrow> string" where
  "fmt_0d w k =
     (let ds = dec (nat \<bar>k\<bar>) in
      if k < 0 then CHR ''-'' # replicate (w - 1 - length ds) CHR ''0'' @ ds
      else replicate (w - length ds) CHR ''0'' @ ds)"

text \<open>The value of a string of decimal digits.\<close>

definition decimal_value :: "string \<Rightarrow> nat" where
  "decimal_value s = foldl (\<lambda>a c. 10 * a + (of_char c - of_char (CHR ''0''))) 0 s"

subsection \<open>Fatal outcomes\<close>

datatype fatal =
    Exit int        \<comment> \<open>\<^verbatim>\<open>exit(n)\<close>\<close>
  | AssertFailed    \<comment> \<open>a failed \<^verbatim>\<open>assert\<close>\<close>
  | Undefined       \<comment> \<open>undefined behaviour: signed overflow, division by zero, a read out of bounds\<close>

subsection \<open>RandomGenerator\<close>

text \<open>
  A member \<^verbatim>\<open>x_\<close> of a C++ class is the field \<open>m_x\<close> of the record.

  The constructor fills \<^verbatim>\<open>data_\<close> with fragments made by \<^verbatim>\<open>test::CompressibleString\<close>
  (not part of this file) until it holds at least 1048576 bytes, and sets \<^verbatim>\<open>pos_\<close> to 0.
  The filled buffer is the parameter of \<open>RandomGenerator_init\<close>.
\<close>

record RandomGenerator =
  m_data :: string
  m_pos :: int

definition RandomGenerator_init :: "string \<Rightarrow> RandomGenerator" where
  "RandomGenerator_init buf = \<lparr>m_data = buf, m_pos = 0\<rparr>"

text \<open>A \<^verbatim>\<open>Slice(data_.data() + off, n)\<close>: the offset into \<^verbatim>\<open>data_\<close> and the size
  (a \<^verbatim>\<open>size_t\<close>).\<close>

record Slice =
  slice_off :: int
  slice_size :: int

text \<open>
  \<^verbatim>\<open>
  Slice Generate(int len) {
    if (pos_ + len > data_.size()) {
      pos_ = 0;
      assert(len < data_.size());
    }
    pos_ += len;
    return Slice(data_.data() + pos_ - len, len);
  }
  \<close>
  The sum \<^verbatim>\<open>pos_ + len\<close> is an \<^verbatim>\<open>int\<close> (leaving the range of \<^verbatim>\<open>int\<close> is
  undefined behaviour); both comparisons are made in \<^verbatim>\<open>size_t\<close>.
\<close>

definition Generate_return :: "RandomGenerator \<Rightarrow> int \<Rightarrow> Slice \<times> RandomGenerator" where
  "Generate_return g len =
     (let g' = g\<lparr>m_pos := m_pos g + len\<rparr>
      in (\<lparr>slice_off = m_pos g' - len, slice_size = to_size_t len\<rparr>, g'))"

definition Generate :: "RandomGenerator \<Rightarrow> int \<Rightarrow> fatal + Slice \<times> RandomGenerator" where
  "Generate g len =
     (if \<not> in_int (m_pos g + len) then Inl Undefined
      else if to_size_t (m_pos g + len) > int (length (m_data g)) then
        (if to_size_t len < int (length (m_data g))
         then Inr (Generate_return (g\<lparr>m_pos := 0\<rparr>) len)
         else Inl AssertFailed)
      else Inr (Generate_return g len))"

text \<open>The bytes a slice denotes; reading outside \<^verbatim>\<open>data_\<close> is undefined behaviour.\<close>

definition slice_bytes :: "string \<Rightarrow> Slice \<Rightarrow> string option" where
  "slice_bytes buf s =
     (if 0 \<le> slice_off s \<and> slice_off s + slice_size s \<le> int (length buf)
      then Some (take (nat (slice_size s)) (drop (nat (slice_off s)) buf))
      else None)"

text \<open>The generators that calls of \<open>Generate\<close> (with an \<^verbatim>\<open>int\<close> argument) can reach
  from a constructed one.\<close>

inductive reachable_gen :: "string \<Rightarrow> RandomGenerator \<Rightarrow> bool" where
  init: "reachable_gen buf (RandomGenerator_init buf)"
| step: "reachable_gen buf g \<Longrightarrow> in_int len \<Longrightarrow> Generate g len = Inr (s, g') \<Longrightarrow>
         reachable_gen buf g'"

subsection \<open>The storage engine and the environment\<close>

text \<open>
  The storage engine, the clock, the pseudo-random generator and the heap profiler are not
  part of this file. They are parameters: a record of functions over a state \<open>'e\<close> of the
  engine that the theorems below hold for, whatever the functions are. Only the theorem on
  the two sequential read phases asks more of the engine: the contract \<open>engine_contract\<close>.
\<close>

text \<open>A \<^verbatim>\<open>Status\<close>: ok, or not ok with the text that \<^verbatim>\<open>ToString()\<close> returns.\<close>

datatype Status = OK | NotOK string

definition ok :: "Status \<Rightarrow> bool" where
  "ok s = (s = OK)"

definition ToString :: "Status \<Rightarrow> string" where
  "ToString s = (case s of OK \<Rightarrow> ''OK'' | NotOK m \<Rightarrow> m)"

record Options =
  create_if_missing :: bool
  max_open_files :: int
  write_buffer_size :: int

record 'e Env =
  DB_Open :: "Options \<Rightarrow> 'e \<Rightarrow> Status \<times> 'e"
  DB_Delete :: "'e \<Rightarrow> 'e"
  DestroyDB :: "'e \<Rightarrow> 'e"
  DB_Write :: "bool \<Rightarrow> (string \<times> string) list \<Rightarrow> 'e \<Rightarrow> Status \<times> 'e"
  DB_NewIterator :: "'e \<Rightarrow> (string \<times> string) list"
  DB_GetProperty :: "string \<Rightarrow> 'e \<Rightarrow> nat option"
  TEST_CompactMemTable :: "'e \<Rightarrow> 'e"
  TEST_CompactRange :: "int \<Rightarrow> string \<Rightarrow> string \<Rightarrow> 'e \<Rightarrow> 'e"
  kNumLevels :: int
  NowMicros :: "nat \<Rightarrow> nat"
  Random_Next :: "nat \<Rightarrow> nat"
  NewWritableFile :: "string \<Rightarrow> Status"
  GetHeapProfile :: bool
  fmt_5_1f :: "real \<Rightarrow> string"

text \<open>
  \<open>DB_Open opts e\<close> is \<^verbatim>\<open>DB::Open(options, "/tmp/dbbench", &db_)\<close>, \<open>DB_Delete\<close> is
  \<^verbatim>\<open>delete db_\<close>, \<open>DB_Write sync batch e\<close> is \<^verbatim>\<open>db_->Write(options, &batch)\<close> with
  \<^verbatim>\<open>options.sync = sync\<close>, \<open>DB_NewIterator e\<close> is the sequence of entries that an
  iterator of \<^verbatim>\<open>db_->NewIterator(ReadOptions())\<close> walks, first to last,
  \<open>DB_GetProperty name e\<close> is \<open>Some v\<close> when \<^verbatim>\<open>db_->GetProperty(name, &v)\<close> returns true.
  \<open>NowMicros n\<close> is what the \<open>n\<close>-th call of \<^verbatim>\<open>Env::Default()->NowMicros()\<close> returns and
  \<open>Random_Next n\<close> what the \<open>n\<close>-th call of \<^verbatim>\<open>rand_.Next()\<close> returns (a \<^verbatim>\<open>uint32_t\<close>: the
  value is taken modulo \<open>2 ^ 32\<close>). \<open>fmt_5_1f\<close> is the conversion \<^verbatim>\<open>%5.1f\<close> of printf.
  Doubles are modelled as reals.
\<close>

text \<open>The calls made to the engine and to the file system, in order, with their replies.\<close>

datatype call =
    Call_Open Options Status
  | Call_Delete
  | Call_DestroyDB
  | Call_Write bool "(string \<times> string) list" Status
  | Call_Get string
  | Call_NewIterator
  | Call_key string
  | Call_value string
  | Call_GetProperty string "nat option"
  | Call_CompactMemTable
  | Call_CompactRange int string string
  | Call_NewWritableFile string Status
  | Call_GetHeapProfile bool
  | Call_DeleteFile string

text \<open>The lines printed to the diagnostic stream and to the standard output, as the
  arguments of their \<^verbatim>\<open>fprintf\<close>.\<close>

datatype errline =
    Err_open string           \<comment> \<open>\<^verbatim>\<open>"open error: %s\n"\<close>\<close>
  | Err_put string            \<comment> \<open>\<^verbatim>\<open>"put error: %s\n"\<close>\<close>
  | Err_unknown string        \<comment> \<open>\<^verbatim>\<open>"unknown benchmark '%s'\n"\<close>\<close>
  | Err_long_op real          \<comment> \<open>\<^verbatim>\<open>"long op: %.1f micros%30s\r"\<close>\<close>
  | Err_finished int          \<comment> \<open>\<^verbatim>\<open>"... finished %d ops%30s\r"\<close>\<close>

datatype outline =
    Out_summary string real string string   \<comment> \<open>\<^verbatim>\<open>"%-12s : %11.3f micros/op;%s%s\n"\<close>\<close>
  | Out_histogram "real list"               \<comment> \<open>\<^verbatim>\<open>"Microseconds per op:\n%s\n"\<close>\<close>

text \<open>
  Modelled from the spec: the iterator of the engine (\<^verbatim>\<open>Iterator\<close> is declared outside
  this file) is a bidirectional cursor with the operations seek-to-first, seek-to-last,
  valid?, advance, retreat, current-key and current-value. It is the sequence of entries it
  walks and a position; it is valid when the position is on an entry.
\<close>

record Iterator =
  it_entries :: "(string \<times> string) list"
  it_pos :: int

definition SeekToFirst :: "Iterator \<Rightarrow> Iterator" where
  "SeekToFirst it = it\<lparr>it_pos := 0\<rparr>"

definition SeekToLast :: "Iterator \<Rightarrow> Iterator" where
  "SeekToLast it = it\<lparr>it_pos := int (length (it_entries it)) - 1\<rparr>"

definition Valid :: "Iterator \<Rightarrow> bool" where
  "Valid it = (0 \<le> it_pos it \<and> it_pos it < int (length (it_entries it)))"

definition Next :: "Iterator \<Rightarrow> Iterator" where
  "Next it = it\<lparr>it_pos := it_pos it + 1\<rparr>"

definition Prev :: "Iterator \<Rightarrow> Iterator" where
  "Prev it = it\<lparr>it_pos := it_pos it - 1\<rparr>"

definition it_key :: "Iterator \<Rightarrow> string" where
  "it_key it = fst (it_entries it ! nat (it_pos it))"

definition it_value :: "Iterator \<Rightarrow> string" where
  "it_value it = snd (it_entries it ! nat (it_pos it))"

subsection \<open>Flags and the state of a Benchmark\<close>

record Flags =
  FLAGS_benchmarks :: string
  FLAGS_num :: int
  FLAGS_value_size :: int
  FLAGS_histogram :: bool
  FLAGS_write_buffer_size :: int

datatype Order = SEQUENTIAL | RANDOM

datatype DBState = FRESH | EXISTING

text \<open>
  \<open>m_db\<close> says that \<^verbatim>\<open>db_\<close> is not \<^verbatim>\<open>NULL\<close>; \<open>engine\<close> is the state of the engine
  behind it. \<open>m_rand\<close> counts the calls of \<^verbatim>\<open>rand_.Next()\<close> and \<open>clock\<close> the readings of the
  clock. \<open>m_hist\<close> holds the samples added to \<^verbatim>\<open>hist_\<close>. \<open>calls\<close>, \<open>stderr\<close> and \<open>stdout\<close>
  record what the harness has called and printed so far.

  The phases use \<^verbatim>\<open>db_\<close> as they find it: \<^verbatim>\<open>Run\<close> opens the engine before its loop and
  \<^verbatim>\<open>Write\<close> opens it again for a fresh database, so that no phase of a run meets a
  \<^verbatim>\<open>db_\<close> that is \<^verbatim>\<open>NULL\<close>.
\<close>

record 'e Benchmark =
  m_db :: bool
  engine :: 'e
  m_num :: int
  m_heap_counter :: int
  m_start :: real
  m_last_op_finish :: real
  m_bytes :: int
  m_message :: string
  m_hist :: "real list"
  m_gen :: RandomGenerator
  m_rand :: nat
  m_done :: int
  m_next_report :: int
  clock :: nat
  calls :: "call list"
  stderr :: "errline list"
  stdout :: "outline list"

definition to_int64 :: "int \<Rightarrow> int" where
  "to_int64 x = (let y = x mod 2 ^ 64 in if y < 2 ^ 63 then y else y - 2 ^ 64)"

text \<open>Division of C: the quotient is truncated towards zero.\<close>

definition c_div :: "int \<Rightarrow> int \<Rightarrow> int" where
  "c_div a b = sgn a * sgn b * (\<bar>a\<bar> div \<bar>b\<bar>)"

text \<open>\<^verbatim>\<open>snprintf(buf, sizeof(buf), ...)\<close> into a buffer of 100 bytes keeps 99 characters.\<close>

definition snprintf100 :: "string \<Rightarrow> string" where
  "snprintf100 s = take 99 s"

definition log_call :: "call \<Rightarrow> 'e Benchmark \<Rightarrow> 'e Benchmark" where
  "log_call c b = b\<lparr>calls := calls b @ [c]\<rparr>"

definition print_err :: "errline \<Rightarrow> 'e Benchmark \<Rightarrow> 'e Benchmark" where
  "print_err l b = b\<lparr>stderr := stderr b @ [l]\<rparr>"

definition print_out :: "outline \<Rightarrow> 'e Benchmark \<Rightarrow> 'e Benchmark" where
  "print_out l b = b\<lparr>stdout := stdout b @ [l]\<rparr>"

text \<open>\<^verbatim>\<open>Env::Default()->NowMicros() * 1e-6\<close>\<close>

definition now_seconds :: "'e Env \<Rightarrow> 'e Benchmark \<Rightarrow> real \<times> 'e Benchmark" where
  "now_seconds env b = (real (NowMicros env (clock b)) / 1000000, b\<lparr>clock := Suc (clock b)\<rparr>)"

subsection \<open>Start, FinishedSingleOp, Stop\<close>

definition Start :: "'e Env \<Rightarrow> 'e Benchmark \<Rightarrow> 'e Benchmark" where
  "Start env b =
     (let (t, b1) = now_seconds env b
      in b1\<lparr>m_start := t, m_bytes := 0, m_message := [], m_last_op_finish := t,
            m_hist := [], m_done := 0, m_next_report := 100\<rparr>)"

text \<open>The histogram part of \<^verbatim>\<open>FinishedSingleOp\<close>, run when \<^verbatim>\<open>FLAGS_histogram\<close> is set.\<close>

definition record_sample :: "'e Env \<Rightarrow> 'e Benchmark \<Rightarrow> 'e Benchmark" where
  "record_sample env b =
     (let (t, b1) = now_seconds env b;
          micros = (t - m_last_op_finish b1) * 1000000;
          b2 = b1\<lparr>m_hist := m_hist b1 @ [micros]\<rparr>;
          b3 = (if micros > 20000 then print_err (Err_long_op micros) b2 else b2)
      in b3\<lparr>m_last_op_finish := t\<rparr>)"

text \<open>\<^verbatim>\<open>FinishedSingleOp()\<close>. The counters \<^verbatim>\<open>done_\<close> and \<^verbatim>\<open>next_report_\<close> are
  incremented with the wrap-around of 32 bits written out.\<close>

definition FinishedSingleOp :: "'e Env \<Rightarrow> Flags \<Rightarrow> 'e Benchmark \<Rightarrow> 'e Benchmark" where
  "FinishedSingleOp env flags b =
     (let b1 = (if FLAGS_histogram flags then record_sample env b else b);
          b2 = b1\<lparr>m_done := to_int32 (m_done b1 + 1)\<rparr>
      in if m_done b2 \<ge> m_next_report b2 then
           (let nr = m_next_report b2;
                b3 = b2\<lparr>m_next_report :=
                       to_int32 (if nr < 1000 then nr + 100
                                 else if nr < 10000 then nr + 1000
                                 else if nr < 100000 then nr + 10000
                                 else nr + 100000)\<rparr>
            in print_err (Err_finished (m_done b3)) b3)
         else b2)"

text \<open>\<^verbatim>\<open>Stop(name)\<close>. The rate is printed with \<^verbatim>\<open>"%5.1f MB/s"\<close> into a buffer of 100
  bytes.\<close>

definition Stop :: "'e Env \<Rightarrow> Flags \<Rightarrow> string \<Rightarrow> 'e Benchmark \<Rightarrow> 'e Benchmark" where
  "Stop env flags name b =
     (let (finish, b1) = now_seconds env b;
          b2 = (if m_done b1 < 1 then b1\<lparr>m_done := 1\<rparr> else b1);
          b3 =
            (if m_bytes b2 > 0 then
               (let rate = snprintf100
                      (fmt_5_1f env ((real_of_int (m_bytes b2) / 1048576) / (finish - m_start b2))
                       @ '' MB/s'')
                in b2\<lparr>m_message :=
                       (if m_message b2 \<noteq> [] then rate @ '' '' @ m_message b2 else rate)\<rparr>)
             else b2);
          b4 = print_out
                 (Out_summary name ((finish - m_start b3) * 1000000 / real_of_int (m_done b3))
                    (if m_message b3 = [] then [] else '' '') (m_message b3)) b3
      in if FLAGS_histogram flags then print_out (Out_histogram (m_hist b4)) b4 else b4)"

subsection \<open>Open and Write\<close>

definition Open :: "'e Env \<Rightarrow> Flags \<Rightarrow> 'e Benchmark \<Rightarrow> fatal \<times> 'e Benchmark + 'e Benchmark" where
  "Open env flags b =
     (if m_db b then Inl (AssertFailed, b)
      else
        let options = \<lparr>create_if_missing = True, max_open_files = 10000,
                       write_buffer_size = FLAGS_write_buffer_size flags\<rparr>;
            (s, e) = DB_Open env options (engine b);
            b1 = log_call (Call_Open options s) (b\<lparr>engine := e, m_db := ok s\<rparr>)
        in if \<not> ok s then Inl (Exit 1, print_err (Err_open (ToString s)) b1) else Inr b1)"

text \<open>\<^verbatim>\<open>rand_.Next() % FLAGS_num\<close>, computed in \<^verbatim>\<open>unsigned int\<close> and stored in an
  \<^verbatim>\<open>int\<close>; a remainder by zero is undefined behaviour.\<close>

definition Random_key ::
  "'e Env \<Rightarrow> Flags \<Rightarrow> 'e Benchmark \<Rightarrow> fatal \<times> 'e Benchmark + int \<times> 'e Benchmark" where
  "Random_key env flags b =
     (let r = int (Random_Next env (m_rand b)) mod 2 ^ 32;
          b1 = b\<lparr>m_rand := Suc (m_rand b)\<rparr>
      in if to_uint32 (FLAGS_num flags) = 0 then Inl (Undefined, b1)
         else Inr (to_int32 (r mod to_uint32 (FLAGS_num flags)), b1))"

text \<open>The body of the loop of \<^verbatim>\<open>Write\<close>, for the index \<open>i\<close>.\<close>

definition Write_body ::
  "'e Env \<Rightarrow> Flags \<Rightarrow> bool \<Rightarrow> Order \<Rightarrow> int \<Rightarrow> int \<Rightarrow> 'e Benchmark
     \<Rightarrow> fatal \<times> 'e Benchmark + 'e Benchmark" where
  "Write_body env flags sync order value_size i b =
     (case (if order = SEQUENTIAL then Inr (i, b) else Random_key env flags b) of
        Inl f \<Rightarrow> Inl f
      | Inr (k, b1) \<Rightarrow>
          let key = snprintf100 (fmt_0d 16 k) in
          (case Generate (m_gen b1) value_size of
             Inl f \<Rightarrow> Inl (f, b1)
           | Inr (sl, g) \<Rightarrow>
               (case slice_bytes (m_data g) sl of
                  None \<Rightarrow> Inl (Undefined, b1\<lparr>m_gen := g\<rparr>)
                | Some val \<Rightarrow>
                    let batch = [(key, val)];
                        (s, e) = DB_Write env sync batch (engine b1);
                        b2 = log_call (Call_Write sync batch s) (b1\<lparr>m_gen := g, engine := e\<rparr>);
                        b3 = b2\<lparr>m_bytes :=
                               to_int64 (m_bytes b2 + to_size_t value_size + int (length key))\<rparr>
                    in if \<not> ok s then Inl (Exit 1, print_err (Err_put (ToString s)) b3)
                       else Inr (FinishedSingleOp env flags b3))))"

function Write_loop ::
  "'e Env \<Rightarrow> Flags \<Rightarrow> bool \<Rightarrow> Order \<Rightarrow> int \<Rightarrow> int \<Rightarrow> int \<Rightarrow> 'e Benchmark
     \<Rightarrow> fatal \<times> 'e Benchmark + 'e Benchmark" where
  "Write_loop env flags sync order value_size i num_entries b =
     (if i < num_entries then
        (case Write_body env flags sync order value_size i b of
           Inl f \<Rightarrow> Inl f
         | Inr b' \<Rightarrow> Write_loop env flags sync order value_size (i + 1) num_entries b')
      else Inr b)"
  by pat_completeness auto
termination
  by (relation "measure (\<lambda>(env, flags, sync, order, value_size, i, num_entries, b).
                  nat (num_entries - i))") auto

declare Write_loop.simps [simp del]

text \<open>What \<^verbatim>\<open>Write\<close> does first when \<^verbatim>\<open>state == FRESH\<close>: \<^verbatim>\<open>delete db_\<close>,
  \<^verbatim>\<open>db_ = NULL\<close>, \<^verbatim>\<open>DestroyDB("/tmp/dbbench", Options())\<close>, \<^verbatim>\<open>Open()\<close>, \<^verbatim>\<open>Start()\<close>.\<close>

definition Write_fresh :: "'e Env \<Rightarrow> Flags \<Rightarrow> 'e Benchmark \<Rightarrow> fatal \<times> 'e Benchmark + 'e Benchmark" where
  "Write_fresh env flags b =
     (let b1 = (if m_db b
                then log_call Call_Delete (b\<lparr>engine := DB_Delete env (engine b)\<rparr>)
                else b);
          b2 = b1\<lparr>m_db := False\<rparr>;
          b3 = log_call Call_DestroyDB (b2\<lparr>engine := DestroyDB env (engine b2)\<rparr>)
      in case Open env flags b3 of Inl f \<Rightarrow> Inl f | Inr b4 \<Rightarrow> Inr (Start env b4))"

definition Write ::
  "'e Env \<Rightarrow> Flags \<Rightarrow> bool \<Rightarrow> Order \<Rightarrow> DBState \<Rightarrow> int \<Rightarrow> int \<Rightarrow> 'e Benchmark
     \<Rightarrow> fatal \<times> 'e Benchmark + 'e Benchmark" where
  "Write env flags sync order state num_entries value_size b =
     (case (if state = FRESH then Write_fresh env flags b else Inr b) of
        Inl f \<Rightarrow> Inl f
      | Inr b5 \<Rightarrow>
          let b6 = (if num_entries \<noteq> m_num b5
                    then b5\<lparr>m_message := snprintf100 (''('' @ fmt_d num_entries @ '' ops)'')\<rparr>
                    else b5)
          in Write_loop env flags sync order value_size 0 num_entries b6)"

subsection \<open>The read phases\<close>

text \<open>The loops of \<^verbatim>\<open>ReadSequential\<close> and \<^verbatim>\<open>ReadReverse\<close>, from the index \<open>i\<close> and the
  iterator where it stands.\<close>

function ReadSequential_loop ::
  "'e Env \<Rightarrow> Flags \<Rightarrow> Iterator \<Rightarrow> int \<Rightarrow> 'e Benchmark \<Rightarrow> 'e Benchmark" where
  "ReadSequential_loop env flags iter i b =
     (if i < m_num b \<and> Valid iter then
        (let b1 = log_call (Call_value (it_value iter)) (log_call (Call_key (it_key iter)) b);
             b2 = b1\<lparr>m_bytes := to_int64 (m_bytes b1 + int (length (it_key iter))
                                            + int (length (it_value iter)))\<rparr>
         in ReadSequential_loop env flags (Next iter) (i + 1) (FinishedSingleOp env flags b2))
      else b)"
  by pat_completeness auto
termination
  by (relation "measure (\<lambda>(env, flags, iter, i, b).
                  nat (int (length (it_entries iter)) - it_pos iter))")
     (auto simp: Valid_def Next_def)

declare ReadSequential_loop.simps [simp del]

definition ReadSequential :: "'e Env \<Rightarrow> Flags \<Rightarrow> 'e Benchmark \<Rightarrow> 'e Benchmark" where
  "ReadSequential env flags b =
     (let iter = \<lparr>it_entries = DB_NewIterator env (engine b), it_pos = - 1\<rparr>;
          b1 = log_call Call_NewIterator b
      in ReadSequential_loop env flags (SeekToFirst iter) 0 b1)"

function ReadReverse_loop ::
  "'e Env \<Rightarrow> Flags \<Rightarrow> Iterator \<Rightarrow> int \<Rightarrow> 'e Benchmark \<Rightarrow> 'e Benchmark" where
  "ReadReverse_loop env flags iter i b =
     (if i < m_num b \<and> Valid iter then
        (let b1 = log_call (Call_value (it_value iter)) (log_call (Call_key (it_key iter)) b);
             b2 = b1\<lparr>m_bytes := to_int64 (m_bytes b1 + int (length (it_key iter))
                                            + int (length (it_value iter)))\<rparr>
         in ReadReverse_loop env flags (Prev iter) (i + 1) (FinishedSingleOp env flags b2))
      else b)"
  by pat_completeness auto
termination
  by (relation "measure (\<lambda>(env, flags, iter, i, b). nat (it_pos iter + 1))")
     (auto simp: Valid_def Prev_def)

declare ReadReverse_loop.simps [simp del]

definition ReadReverse :: "'e Env \<Rightarrow> Flags \<Rightarrow> 'e Benchmark \<Rightarrow> 'e Benchmark" where
  "ReadReverse env flags b =
     (let iter = \<lparr>it_entries = DB_NewIterator env (engine b), it_pos = - 1\<rparr>;
          b1 = log_call Call_NewIterator b
      in ReadReverse_loop env flags (SeekToLast iter) 0 b1)"

text \<open>The loop of \<^verbatim>\<open>ReadRandom\<close>; \<open>n\<close> is \<^verbatim>\<open>num_\<close>, which nothing assigns after the
  constructor.\<close>

function ReadRandom_loop ::
  "'e Env \<Rightarrow> Flags \<Rightarrow> int \<Rightarrow> int \<Rightarrow> 'e Benchmark \<Rightarrow> fatal \<times> 'e Benchmark + 'e Benchmark" where
  "ReadRandom_loop env flags i n b =
     (if i < n then
        (case Random_key env flags b of
           Inl f \<Rightarrow> Inl f
         | Inr (k, b1) \<Rightarrow>
             (let key = snprintf100 (fmt_0d 16 k);
                  b2 = log_call (Call_Get key) b1
              in ReadRandom_loop env flags (i + 1) n (FinishedSingleOp env flags b2)))
      else Inr b)"
  by pat_completeness auto
termination
  by (relation "measure (\<lambda>(env, flags, i, n, b). nat (n - i))") auto

declare ReadRandom_loop.simps [simp del]

definition ReadRandom :: "'e Env \<Rightarrow> Flags \<Rightarrow> 'e Benchmark \<Rightarrow> fatal \<times> 'e Benchmark + 'e Benchmark" where
  "ReadRandom env flags b = ReadRandom_loop env flags 0 (m_num b) b"

subsection \<open>Compact and HeapProfile\<close>

text \<open>\<^verbatim>\<open>snprintf(name, sizeof(name), "leveldb.num-files-at-level%d", level)\<close>\<close>

definition property_name :: "int \<Rightarrow> string" where
  "property_name level = snprintf100 (''leveldb.num-files-at-level'' @ fmt_d level)"

text \<open>The first loop of \<^verbatim>\<open>Compact\<close>: \<open>m\<close> is \<^verbatim>\<open>max_level_with_files\<close>.\<close>

function Compact_scan :: "'e Env \<Rightarrow> int \<Rightarrow> int \<Rightarrow> 'e Benchmark \<Rightarrow> int \<times> 'e Benchmark" where
  "Compact_scan env level m b =
     (if level < kNumLevels env then
        (let name = property_name level;
             r = DB_GetProperty env name (engine b);
             b1 = log_call (Call_GetProperty name r) b;
             m' = (case r of None \<Rightarrow> m | Some v \<Rightarrow> if v > 0 then level else m)
         in Compact_scan env (level + 1) m' b1)
      else (m, b))"
  by pat_completeness auto
termination
  by (relation "measure (\<lambda>(env, level, m, b). nat (kNumLevels env - level))") auto

declare Compact_scan.simps [simp del]

text \<open>The second loop: \<^verbatim>\<open>dbi->TEST_CompactRange(level, "", "~")\<close> for the levels below \<open>m\<close>.\<close>

function Compact_ranges :: "'e Env \<Rightarrow> int \<Rightarrow> int \<Rightarrow> 'e Benchmark \<Rightarrow> 'e Benchmark" where
  "Compact_ranges env level m b =
     (if level < m then
        Compact_ranges env (level + 1) m
          (log_call (Call_CompactRange level [] ''~'')
             (b\<lparr>engine := TEST_CompactRange env level [] ''~'' (engine b)\<rparr>))
      else b)"
  by pat_completeness auto
termination
  by (relation "measure (\<lambda>(env, level, m, b). nat (m - level))") auto

declare Compact_ranges.simps [simp del]

definition Compact :: "'e Env \<Rightarrow> 'e Benchmark \<Rightarrow> 'e Benchmark" where
  "Compact env b =
     (let b1 = log_call Call_CompactMemTable (b\<lparr>engine := TEST_CompactMemTable env (engine b)\<rparr>);
          (max_level_with_files, b2) = Compact_scan env 1 1 b1
      in Compact_ranges env 0 max_level_with_files b2)"

definition HeapProfile :: "'e Env \<Rightarrow> 'e Benchmark \<Rightarrow> 'e Benchmark" where
  "HeapProfile env b =
     (let b1 = b\<lparr>m_heap_counter := to_int32 (m_heap_counter b + 1)\<rparr>;
          fname = snprintf100 (''/tmp/dbbench/heap-'' @ fmt_0d 4 (m_heap_counter b1));
          s = NewWritableFile env fname;
          b2 = log_call (Call_NewWritableFile fname s) b1
      in if \<not> ok s then b2\<lparr>m_message := ToString s\<rparr>
         else
           (let b3 = log_call (Call_GetHeapProfile (GetHeapProfile env)) b2
            in if \<not> GetHeapProfile env
               then log_call (Call_DeleteFile fname) (b3\<lparr>m_message := ''not supported''\<rparr>)
               else b3))"

subsection \<open>Run\<close>

text \<open>The constructor: \<^verbatim>\<open>num_(FLAGS_num)\<close>, \<^verbatim>\<open>db_(NULL)\<close>, and
  \<^verbatim>\<open>DestroyDB("/tmp/dbbench", Options())\<close> on the engine it finds. The members that the
  constructor leaves unset are set by \<open>Start\<close> before they are read.\<close>

definition Benchmark_init :: "'e Env \<Rightarrow> Flags \<Rightarrow> string \<Rightarrow> 'e \<Rightarrow> 'e Benchmark" where
  "Benchmark_init env flags buf e =
     \<lparr>m_db = False, engine = DestroyDB env e, m_num = FLAGS_num flags, m_heap_counter = 0,
      m_start = 0, m_last_op_finish = 0, m_bytes = 0, m_message = [], m_hist = [],
      m_gen = RandomGenerator_init buf, m_rand = 0, m_done = 0, m_next_report = 0,
      clock = 0, calls = [Call_DestroyDB], stderr = [], stdout = []\<rparr>"

text \<open>The names that \<^verbatim>\<open>Run\<close> compares a phase name with.\<close>

definition known_benchmarks :: "string list" where
  "known_benchmarks =
     [''fillseq'', ''fillrandom'', ''overwrite'', ''fillsync'', ''fill100K'',
      ''readseq'', ''readreverse'', ''readrandom'', ''compact'', ''heapprofile'']"

text \<open>One turn of the loop of \<^verbatim>\<open>Run\<close>, for the phase \<open>name\<close>: \<^verbatim>\<open>Start()\<close>, the chain of
  comparisons, \<^verbatim>\<open>Stop(name)\<close>.\<close>

definition Run_benchmark ::
  "'e Env \<Rightarrow> Flags \<Rightarrow> string \<Rightarrow> 'e Benchmark \<Rightarrow> fatal \<times> 'e Benchmark + 'e Benchmark" where
  "Run_benchmark env flags name b =
     (let b0 = Start env b;
          r =
            (if name = ''fillseq'' then
               Write env flags False SEQUENTIAL FRESH (m_num b0) (FLAGS_value_size flags) b0
             else if name = ''fillrandom'' then
               Write env flags False RANDOM FRESH (m_num b0) (FLAGS_value_size flags) b0
             else if name = ''overwrite'' then
               Write env flags False RANDOM EXISTING (m_num b0) (FLAGS_value_size flags) b0
             else if name = ''fillsync'' then
               Write env flags True RANDOM FRESH (c_div (m_num b0) 100) (FLAGS_value_size flags) b0
             else if name = ''fill100K'' then
               Write env flags False RANDOM FRESH (c_div (m_num b0) 1000) (100 * 1000) b0
             else if name = ''readseq'' then Inr (ReadSequential env flags b0)
             else if name = ''readreverse'' then Inr (ReadReverse env flags b0)
             else if name = ''readrandom'' then ReadRandom env flags b0
             else if name = ''compact'' then Inr (Compact env b0)
             else if name = ''heapprofile'' then Inr (HeapProfile env b0)
             else Inr (print_err (Err_unknown name) b0))
      in case r of Inl f \<Rightarrow> Inl f | Inr b1 \<Rightarrow> Inr (Stop env flags name b1))"

text \<open>\<^verbatim>\<open>strchr(s, c)\<close>: the index of the first \<open>c\<close> in \<open>s\<close>.\<close>

fun strchr :: "string \<Rightarrow> char \<Rightarrow> nat option" where
  "strchr [] c = None"
| "strchr (x # xs) c = (if x = c then Some 0 else map_option Suc (strchr xs c))"

text \<open>The head of the loop of \<^verbatim>\<open>Run\<close>: the name up to the first comma, and what is
  left of the list (\<open>None\<close> is the \<^verbatim>\<open>NULL\<close> that ends the loop).\<close>

definition next_benchmark :: "string \<Rightarrow> string \<times> string option" where
  "next_benchmark benchmarks =
     (case strchr benchmarks CHR '','' of
        None \<Rightarrow> (benchmarks, None)
      | Some sep \<Rightarrow> (take sep benchmarks, Some (drop (sep + 1) benchmarks)))"

lemma strchr_less: "strchr s c = Some n \<Longrightarrow> n < length s"
  by (induction s arbitrary: n) (auto split: if_splits)

function Run_loop ::
  "'e Env \<Rightarrow> Flags \<Rightarrow> string option \<Rightarrow> 'e Benchmark \<Rightarrow> fatal \<times> 'e Benchmark + 'e Benchmark" where
  "Run_loop env flags None b = Inr b"
| "Run_loop env flags (Some benchmarks) b =
     (case Run_benchmark env flags (fst (next_benchmark benchmarks)) b of
        Inl f \<Rightarrow> Inl f
      | Inr b' \<Rightarrow> Run_loop env flags (snd (next_benchmark benchmarks)) b')"
  by pat_completeness auto
termination
  by (relation "measure (\<lambda>(env, flags, bs, b). case bs of None \<Rightarrow> 0 | Some s \<Rightarrow> Suc (length s))")
     (auto simp: next_benchmark_def split: option.splits dest: strchr_less)

declare Run_loop.simps [simp del]

text \<open>\<^verbatim>\<open>Run\<close>, without the header that \<^verbatim>\<open>PrintHeader\<close> prints.\<close>

definition Run :: "'e Env \<Rightarrow> Flags \<Rightarrow> 'e Benchmark \<Rightarrow> fatal \<times> 'e Benchmark + 'e Benchmark" where
  "Run env flags b =
     (case Open env flags b of
        Inl f \<Rightarrow> Inl f
      | Inr b1 \<Rightarrow> Run_loop env flags (Some (FLAGS_benchmarks flags)) b1)"

subsection \<open>Reading the log of calls\<close>

text \<open>The calls that were logged between the state \<open>b\<close> and a later state \<open>b'\<close>.\<close>

definition new_calls :: "'e Benchmark \<Rightarrow> 'e Benchmark \<Rightarrow> call list" where
  "new_calls b b' = drop (length (calls b)) (calls b')"

text \<open>The batches of the writes in a log, and the keys read through an iterator.\<close>

fun written :: "call list \<Rightarrow> (string \<times> string) list list" where
  "written [] = []"
| "written (Call_Write sync batch s # cs) = batch # written cs"
| "written (c # cs) = written cs"

fun visited_keys :: "call list \<Rightarrow> string list" where
  "visited_keys [] = []"
| "visited_keys (Call_key k # cs) = k # visited_keys cs"
| "visited_keys (c # cs) = visited_keys cs"

text \<open>The calls that read the entries \<open>es\<close> through an iterator, one after the other.\<close>

definition visit_calls :: "(string \<times> string) list \<Rightarrow> call list" where
  "visit_calls es = concat (map (\<lambda>(k, v). [Call_key k, Call_value v]) es)"

text \<open>The engine in the state \<open>e\<close> reports at least one file at a level:
  \<^verbatim>\<open>db_->GetProperty(name, &v) && v > 0\<close>.\<close>

definition has_files :: "'e Env \<Rightarrow> 'e \<Rightarrow> int \<Rightarrow> bool" where
  "has_files env e level =
     (case DB_GetProperty env (property_name level) e of None \<Rightarrow> False | Some v \<Rightarrow> v > 0)"

text \<open>An \<^verbatim>\<open>Open\<close> or a \<^verbatim>\<open>Write\<close> whose status is not ok.\<close>

fun failed_call :: "call \<Rightarrow> bool" where
  "failed_call (Call_Open opts s) = (\<not> ok s)"
| "failed_call (Call_Write sync batch s) = (\<not> ok s)"
| "failed_call c = False"

text \<open>The state in which a run ends, with a fatal outcome or without.\<close>

definition final_state :: "fatal \<times> 'e Benchmark + 'e Benchmark \<Rightarrow> 'e Benchmark" where
  "final_state r = (case r of Inl (f, b) \<Rightarrow> b | Inr b \<Rightarrow> b)"

text \<open>The line that the harness prints for a failed call:
  \<^verbatim>\<open>"open error: %s\n"\<close> or \<^verbatim>\<open>"put error: %s\n"\<close>, with \<^verbatim>\<open>s.ToString()\<close>.\<close>

fun error_line :: "call \<Rightarrow> errline option" where
  "error_line (Call_Open opts s) = Some (Err_open (ToString s))"
| "error_line (Call_Write sync batch s) = Some (Err_put (ToString s))"
| "error_line c = None"

text \<open>
  A part of a run, from the state \<open>b\<close> to the result \<open>r\<close>, fails fast: when it ends with
  \<^verbatim>\<open>exit(1)\<close>, the last call it made is a failed \<^verbatim>\<open>Open\<close> or \<^verbatim>\<open>Write\<close>, no call before it
  failed, and the last line of the diagnostic stream is the error line of that call; when it
  ends in any other way, none of its calls failed, and the only other fatal outcomes are a
  failed assertion and undefined behaviour.
\<close>

definition fails_fast :: "'e Benchmark \<Rightarrow> fatal \<times> 'e Benchmark + 'e Benchmark \<Rightarrow> bool" where
  "fails_fast b r =
     (\<exists>cs. calls (final_state r) = calls b @ cs \<and>
        (case r of
           Inl (f, bf) \<Rightarrow>
             (if f = Exit 1
              then cs \<noteq> [] \<and> failed_call (last cs) \<and> \<not> list_ex failed_call (butlast cs)
                   \<and> stderr bf \<noteq> [] \<and> error_line (last cs) = Some (last (stderr bf))
              else (f = AssertFailed \<or> f = Undefined) \<and> \<not> list_ex failed_call cs)
         | Inr b' \<Rightarrow> \<not> list_ex failed_call cs))"

subsection \<open>The store of a run\<close>

text \<open>The keys that an iterator over the state \<open>e\<close> of the engine yields, in its order.\<close>

definition store_keys :: "'e Env \<Rightarrow> 'e \<Rightarrow> string list" where
  "store_keys env e = map fst (DB_NewIterator env e)"

text \<open>
  Modelled from the spec: the contract of the storage engine, which is not part of this
  file. The engine is an ordered key-value store. \<open>DestroyDB\<close> leaves a store that holds no
  entry, in a state that satisfies the invariant \<open>I\<close> of the engine. In every state that
  satisfies \<open>I\<close>, an iterator yields each key once; opening the store and compacting it keep
  \<open>I\<close> and add no key; a write keeps \<open>I\<close> and adds no key but those of its batch. Whether a
  call succeeds is left open.
\<close>

definition engine_contract :: "('e \<Rightarrow> bool) \<Rightarrow> 'e Env \<Rightarrow> bool" where
  "engine_contract I env =
     ((\<forall>e. I (DestroyDB env e) \<and> DB_NewIterator env (DestroyDB env e) = [])
    \<and> (\<forall>e. I e \<longrightarrow> distinct (store_keys env e))
    \<and> (\<forall>e opts. I e \<longrightarrow>
           I (snd (DB_Open env opts e))
         \<and> set (store_keys env (snd (DB_Open env opts e))) \<subseteq> set (store_keys env e))
    \<and> (\<forall>e sync batch. I e \<longrightarrow>
           I (snd (DB_Write env sync batch e))
         \<and> set (store_keys env (snd (DB_Write env sync batch e)))
             \<subseteq> set (store_keys env e) \<union> fst ` set batch)
    \<and> (\<forall>e. I e \<longrightarrow>
           I (TEST_CompactMemTable env e)
         \<and> set (store_keys env (TEST_CompactMemTable env e)) \<subseteq> set (store_keys env e))
    \<and> (\<forall>e level start limit. I e \<longrightarrow>
           I (TEST_CompactRange env level start limit e)
         \<and> set (store_keys env (TEST_CompactRange env level start limit e))
             \<subseteq> set (store_keys env e)))"

text \<open>The store of the harness \<open>b\<close> is in a state of the contract, and every key in it is
  the \<^verbatim>\<open>"%016d"\<close> of an integer from 0 up to but excluding \<^verbatim>\<open>num_\<close>.\<close>

definition store_within :: "('e \<Rightarrow> bool) \<Rightarrow> 'e Env \<Rightarrow> 'e Benchmark \<Rightarrow> bool" where
  "store_within I env b =
     (I (engine b) \<and> set (store_keys env (engine b)) \<subseteq> fmt_0d 16 ` {0..<m_num b})"

text \<open>
  The states of the harness between the phases of a run. \<^verbatim>\<open>main\<close> constructs the harness
  and calls \<^verbatim>\<open>Run\<close>, which opens the store and then runs one phase after the other; a
  phase that ends with a fatal outcome ends the run.
\<close>

inductive reachable_bench :: "'e Env \<Rightarrow> Flags \<Rightarrow> string \<Rightarrow> 'e \<Rightarrow> 'e Benchmark \<Rightarrow> bool"
  for env flags buf e where
  opened: "Open env flags (Benchmark_init env flags buf e) = Inr b \<Longrightarrow>
           reachable_bench env flags buf e b"
| phase: "reachable_bench env flags buf e b \<Longrightarrow> Run_benchmark env flags name b = Inr b' \<Longrightarrow>
          reachable_bench env flags buf e b'"

subsection \<open>An engine for the examples\<close>

text \<open>
  Modelled from the spec: the storage engine is an external collaborator of the harness.
  For the examples it is an ordered list of entries with distinct keys: a write applies the
  puts of its batch, an iterator walks the entries in the order of their keys, \<open>DestroyDB\<close>
  removes everything, and no call fails. The theorems do not depend on this engine.
\<close>

fun store_put :: "string \<Rightarrow> string \<Rightarrow> (string \<times> string) list \<Rightarrow> (string \<times> string) list" where
  "store_put k v [] = [(k, v)]"
| "store_put k v ((k', v') # es) =
     (if k = k' then (k, v) # es
      else if k < k' then (k, v) # (k', v') # es
      else (k', v') # store_put k v es)"

definition mem_env :: "(string \<times> string) list Env" where
  "mem_env =
     \<lparr>DB_Open = (\<lambda>opts e. (OK, e)),
      DB_Delete = (\<lambda>e. e),
      DestroyDB = (\<lambda>e. []),
      DB_Write = (\<lambda>sync batch e. (OK, fold (\<lambda>(k, v). store_put k v) batch e)),
      DB_NewIterator = (\<lambda>e. e),
      DB_GetProperty = (\<lambda>name e. None),
      TEST_CompactMemTable = (\<lambda>e. e),
      TEST_CompactRange = (\<lambda>level start limit e. e),
      kNumLevels = 7,
      NowMicros = (\<lambda>n. 1000 * n),
      Random_Next = (\<lambda>n. 7 * n + 5),
      NewWritableFile = (\<lambda>fname. OK),
      GetHeapProfile = False,
      fmt_5_1f = (\<lambda>x. ''  1.0'')\<rparr>"

text \<open>The same engine, reporting four files at level 2 and none elsewhere.\<close>

definition example_levels_env :: "(string \<times> string) list Env" where
  "example_levels_env =
     mem_env\<lparr>DB_GetProperty :=
               (\<lambda>name e. if name = ''leveldb.num-files-at-level2'' then Some 4 else Some 0)\<rparr>"

text \<open>The same engine with room for one entry: a write to a store that holds an entry
  fails.\<close>

definition example_full_env :: "(string \<times> string) list Env" where
  "example_full_env =
     mem_env\<lparr>DB_Write :=
               (\<lambda>sync batch e.
                  if e = [] then (OK, fold (\<lambda>(k, v). store_put k v) batch e)
                  else (NotOK ''IO error: no space left on device'', e))\<rparr>"

definition example_flags :: Flags where
  "example_flags =
     \<lparr>FLAGS_benchmarks = ''fillseq,readseq'', FLAGS_num = 3, FLAGS_value_size = 2,
      FLAGS_histogram = False, FLAGS_write_buffer_size = 1048576\<rparr>"

definition example_buf :: string where
  "example_buf = replicate 1048600 (CHR ''x'')"

definition example_bench :: "(string \<times> string) list Benchmark" where
  "example_bench = Benchmark_init mem_env example_flags example_buf []"

text \<open>The harness after the phase \<^verbatim>\<open>fillseq\<close> on the example engine.\<close>

definition example_filled :: "(string \<times> string) list Benchmark" where
  "example_filled = final_state (Run_benchmark mem_env example_flags ''fillseq'' example_bench)"

text \<open>A run on the example engine: the constructed harness after \<^verbatim>\<open>Open\<close>, and after
  the phase \<^verbatim>\<open>fillseq\<close> that follows.\<close>

definition example_opened :: "(string \<times> string) list Benchmark" where
  "example_opened = final_state (Open mem_env example_flags example_bench)"

definition example_run :: "(string \<times> string) list Benchmark" where
  "example_run = final_state (Run_benchmark mem_env example_flags ''fillseq'' example_opened)"

section \<open>Properties\<close>

subsection \<open>Conversions\<close>

lemma to_size_t_id: "0 \<le> x \<Longrightarrow> x \<le> INT_MAX \<Longrightarrow> to_size_t x = x"
  by (simp add: to_size_t_def INT_MAX_def)

lemma to_size_t_neg: "x < 0 \<Longrightarrow> INT_MIN \<le> x \<Longrightarrow> to_size_t x \<ge> 2 ^ 63"
proof -
  assume a: "x < 0" "INT_MIN \<le> x"
  have "x mod 2 ^ 64 = (x + 2 ^ 64) mod 2 ^ 64" by simp
  also have "\<dots> = x + 2 ^ 64"
    using a by (intro mod_pos_pos_trivial) (simp_all add: INT_MIN_def)
  finally show ?thesis using a by (simp add: to_size_t_def INT_MIN_def)
qed

subsection \<open>The data generator\<close>

text \<open>What \<open>Generate\<close> returns for a length that is not negative, on a generator whose
  cursor is inside a buffer of at most \<open>2 ^ 30\<close> bytes.\<close>

lemma Generate_cases:
  assumes sz: "int (length (m_data g)) \<le> 2 ^ 30"
    and pos: "0 \<le> m_pos g" "m_pos g \<le> int (length (m_data g))"
    and len: "0 \<le> len" "in_int len"
  shows "Generate g len =
           (if m_pos g + len \<le> int (length (m_data g))
            then Inr (\<lparr>slice_off = m_pos g, slice_size = len\<rparr>, g\<lparr>m_pos := m_pos g + len\<rparr>)
            else if len < int (length (m_data g))
            then Inr (\<lparr>slice_off = 0, slice_size = len\<rparr>, g\<lparr>m_pos := len\<rparr>)
            else if in_int (m_pos g + len) then Inl AssertFailed else Inl Undefined)"
proof -
  from len have l: "to_size_t len = len"
    by (intro to_size_t_id) (simp_all add: in_int_def)
  show ?thesis
  proof (cases "in_int (m_pos g + len)")
    case True
    with pos len have "to_size_t (m_pos g + len) = m_pos g + len"
      by (intro to_size_t_id) (simp_all add: in_int_def)
    with True l show ?thesis by (simp add: Generate_def Generate_return_def)
  next
    case False
    with pos len have "m_pos g + len > INT_MAX" by (simp add: in_int_def INT_MIN_def)
    with sz pos have "m_pos g + len > int (length (m_data g))"
      "\<not> len < int (length (m_data g))"
      by (simp_all add: INT_MAX_def)
    with False show ?thesis by (simp add: Generate_def)
  qed
qed

text \<open>Every generator reached from a constructed one keeps the buffer and has its cursor
  inside it.\<close>

lemma reachable_gen_inv:
  "reachable_gen buf g \<Longrightarrow> int (length buf) \<le> 2 ^ 30 \<Longrightarrow>
     m_data g = buf \<and> 0 \<le> m_pos g \<and> m_pos g \<le> int (length buf)"
proof (induction rule: reachable_gen.induct)
  case (init buf)
  then show ?case by (simp add: RandomGenerator_init_def)
next
  case (step buf g len s g')
  then have inv: "m_data g = buf" "0 \<le> m_pos g" "m_pos g \<le> int (length buf)" by simp_all
  from step.hyps(2) have lo: "INT_MIN \<le> len" by (simp add: in_int_def)
  from step.hyps(3) have ii: "in_int (m_pos g + len)"
    by (auto simp: Generate_def split: if_splits)
  show ?case
  proof (cases "m_pos g + len < 0")
    case True
    with ii have "to_size_t (m_pos g + len) \<ge> 2 ^ 63"
      by (intro to_size_t_neg) (simp_all add: in_int_def)
    with step.prems inv have w: "to_size_t (m_pos g + len) > int (length (m_data g))" by simp
    from True inv have "len < 0" by simp
    with lo have "to_size_t len \<ge> 2 ^ 63" by (intro to_size_t_neg)
    with step.prems inv have "\<not> to_size_t len < int (length (m_data g))" by simp
    with w ii step.hyps(3) show ?thesis by (simp add: Generate_def)
  next
    case False
    with ii have e: "to_size_t (m_pos g + len) = m_pos g + len"
      by (intro to_size_t_id) (simp_all add: in_int_def)
    show ?thesis
    proof (cases "m_pos g + len > int (length buf)")
      case True
      with e inv step.hyps(3) ii have l: "to_size_t len < int (length buf)"
        and g': "g' = g\<lparr>m_pos := len\<rparr>"
        by (auto simp: Generate_def Generate_return_def split: if_splits)
      have "0 \<le> len"
      proof (rule ccontr)
        assume "\<not> 0 \<le> len"
        with lo have "to_size_t len \<ge> 2 ^ 63" by (intro to_size_t_neg) simp_all
        with l step.prems show False by simp
      qed
      moreover from this ii inv have "to_size_t len = len"
        by (intro to_size_t_id) (simp_all add: in_int_def)
      ultimately show ?thesis using l g' inv by simp
    next
      case False
      with e inv step.hyps(3) ii have "g' = g\<lparr>m_pos := m_pos g + len\<rparr>"
        by (auto simp: Generate_def Generate_return_def split: if_splits)
      with False \<open>\<not> m_pos g + len < 0\<close> inv show ?thesis by simp
    qed
  qed
qed

text \<open>
  C2, as amended. For a call \<open>Generate g len\<close> with \<open>0 \<le> len\<close>, on a generator whose
  cursor is inside its buffer (of at most \<open>2 ^ 30\<close> bytes): when the cursor plus the length
  does not exceed the size of the buffer, the slice starts at the cursor, has \<open>len\<close> bytes,
  and the cursor advances by \<open>len\<close>; when it exceeds it and \<open>len\<close> is strictly below the
  size, the cursor is first reset to zero, the slice starts at 0 and the cursor becomes
  \<open>len\<close>; otherwise the call is fatal. So the call is fatal exactly when \<open>len\<close> exceeds the
  size of the buffer, or equals it while the cursor is not at zero.
\<close>

theorem Generate_contract:
  assumes "int (length (m_data g)) \<le> 2 ^ 30"
    and "0 \<le> m_pos g" and "m_pos g \<le> int (length (m_data g))"
    and "0 \<le> len" and "in_int len"
  shows "(if m_pos g + len \<le> int (length (m_data g))
          then Generate g len =
                 Inr (\<lparr>slice_off = m_pos g, slice_size = len\<rparr>, g\<lparr>m_pos := m_pos g + len\<rparr>)
          else if len < int (length (m_data g))
          then Generate g len = Inr (\<lparr>slice_off = 0, slice_size = len\<rparr>, g\<lparr>m_pos := len\<rparr>)
          else isl (Generate g len))
        \<and> (isl (Generate g len) \<longleftrightarrow>
             int (length (m_data g)) < len \<or> (len = int (length (m_data g)) \<and> m_pos g \<noteq> 0))"
  using assms(2-5) by (auto simp: Generate_cases [OF assms])

text \<open>A buffer of 1048600 bytes with the cursor at 1000000: a value of 100000 bytes does not
  fit behind the cursor, so it is taken at the start of the buffer.\<close>

theorem Generate_contract_witness:
  "Generate \<lparr>m_data = replicate 1048600 (CHR ''x''), m_pos = 1000000\<rparr> 100000 =
     Inr (\<lparr>slice_off = 0, slice_size = 100000\<rparr>,
          \<lparr>m_data = replicate 1048600 (CHR ''x''), m_pos = 100000\<rparr>)
   \<and> \<not> isl (Generate \<lparr>m_data = replicate 1048600 (CHR ''x''), m_pos = 1000000\<rparr> 100000)"
  using Generate_contract [of "\<lparr>m_data = replicate 1048600 (CHR ''x''), m_pos = 1000000\<rparr>" 100000]
  by (simp add: in_int_def INT_MIN_def INT_MAX_def)

text \<open>C2 as stated fails: on a buffer of 1048600 bytes a first call for 1048600 bytes
  succeeds and leaves the cursor at the end; a second call for the same length, which does
  not exceed the size of the buffer, resets the cursor and fails the assertion
  \<^verbatim>\<open>len < data_.size()\<close>.\<close>

theorem Generate_full_buffer_counterexample:
  "Generate (RandomGenerator_init (replicate 1048600 (CHR ''x''))) 1048600 =
     Inr (\<lparr>slice_off = 0, slice_size = 1048600\<rparr>,
          \<lparr>m_data = replicate 1048600 (CHR ''x''), m_pos = 1048600\<rparr>)
   \<and> Generate \<lparr>m_data = replicate 1048600 (CHR ''x''), m_pos = 1048600\<rparr> 1048600 =
       Inl AssertFailed"
  by (simp add: Generate_def Generate_return_def RandomGenerator_init_def in_int_def
      INT_MAX_def INT_MIN_def to_size_t_def)

text \<open>
  C10. After a successful call \<open>Generate g len\<close> with \<open>0 \<le> len \<le> length buf\<close>, on a generator
  reached from the constructed one by calls of \<open>Generate\<close>, the cursor satisfies
  \<open>len \<le> m_pos g' \<le> length buf\<close>, the slice is the byte range from \<open>m_pos g' - len\<close> to
  \<open>m_pos g'\<close> of the buffer, which lies inside the buffer, and the buffer is the one the
  generator was constructed with; the generator after the call is reached in turn, so the
  same holds for every later call.
\<close>

theorem Generate_cursor_and_slice:
  assumes "reachable_gen buf g"
    and "int (length buf) \<le> 2 ^ 30"
    and "0 \<le> len" and "len \<le> int (length buf)"
    and "Generate g len = Inr (s, g')"
  shows "len \<le> m_pos g' \<and> m_pos g' \<le> int (length buf)
         \<and> slice_off s = m_pos g' - len \<and> slice_size s = len
         \<and> 0 \<le> slice_off s \<and> slice_off s + slice_size s \<le> int (length buf)
         \<and> slice_bytes buf s = Some (take (nat len) (drop (nat (m_pos g' - len)) buf))
         \<and> length (take (nat len) (drop (nat (m_pos g' - len)) buf)) = nat len
         \<and> m_data g' = buf \<and> reachable_gen buf g'"
proof -
  from assms(1,2) have inv: "m_data g = buf" "0 \<le> m_pos g" "m_pos g \<le> int (length buf)"
    by (simp_all add: reachable_gen_inv)
  from assms(2-4) have il: "in_int len" by (simp add: in_int_def INT_MIN_def INT_MAX_def)
  from assms(1) il assms(5) have r: "reachable_gen buf g'" by (rule reachable_gen.step)
  have c: "Generate g len =
             (if m_pos g + len \<le> int (length (m_data g))
              then Inr (\<lparr>slice_off = m_pos g, slice_size = len\<rparr>, g\<lparr>m_pos := m_pos g + len\<rparr>)
              else if len < int (length (m_data g))
              then Inr (\<lparr>slice_off = 0, slice_size = len\<rparr>, g\<lparr>m_pos := len\<rparr>)
              else if in_int (m_pos g + len) then Inl AssertFailed else Inl Undefined)"
    using assms(2,3) inv il by (intro Generate_cases) simp_all
  show ?thesis
  proof (cases "m_pos g + len \<le> int (length buf)")
    case True
    with c assms(5) inv have "s = \<lparr>slice_off = m_pos g, slice_size = len\<rparr>"
      "g' = g\<lparr>m_pos := m_pos g + len\<rparr>" by simp_all
    with True inv assms(3) r show ?thesis by (simp add: slice_bytes_def)
  next
    case False
    with c assms(5) inv have "len < int (length buf)" by (simp split: if_splits)
    with False c assms(5) inv have "s = \<lparr>slice_off = 0, slice_size = len\<rparr>"
      "g' = g\<lparr>m_pos := len\<rparr>" by simp_all
    with \<open>len < int (length buf)\<close> inv assms(3) r show ?thesis by (simp add: slice_bytes_def)
  qed
qed

text \<open>The first call on a constructed generator, for 100 bytes of a buffer of 1048600.\<close>

theorem Generate_cursor_and_slice_witness:
  "Generate (RandomGenerator_init (replicate 1048600 (CHR ''x''))) 100 =
     Inr (\<lparr>slice_off = 0, slice_size = 100\<rparr>,
          \<lparr>m_data = replicate 1048600 (CHR ''x''), m_pos = 100\<rparr>)
   \<and> slice_bytes (replicate 1048600 (CHR ''x'')) \<lparr>slice_off = 0, slice_size = 100\<rparr> =
       Some (replicate 100 (CHR ''x''))
   \<and> reachable_gen (replicate 1048600 (CHR ''x''))
       \<lparr>m_data = replicate 1048600 (CHR ''x''), m_pos = 100\<rparr>"
proof -
  let ?buf = "replicate 1048600 (CHR ''x'')"
  have g: "Generate (RandomGenerator_init ?buf) 100 =
             Inr (\<lparr>slice_off = 0, slice_size = 100\<rparr>, \<lparr>m_data = ?buf, m_pos = 100\<rparr>)"
    by (simp add: Generate_def Generate_return_def RandomGenerator_init_def in_int_def
        INT_MAX_def INT_MIN_def to_size_t_def)
  have "int (length ?buf) \<le> 2 ^ 30" "(0::int) \<le> 100" "100 \<le> int (length ?buf)" by simp_all
  from Generate_cursor_and_slice [OF reachable_gen.init this g] g show ?thesis by simp
qed

subsection \<open>The recorder and the scheduler\<close>

lemma record_sample_fields [simp]:
  "calls (record_sample env b) = calls b"
  "engine (record_sample env b) = engine b"
  "m_num (record_sample env b) = m_num b"
  "m_bytes (record_sample env b) = m_bytes b"
  "m_gen (record_sample env b) = m_gen b"
  "m_rand (record_sample env b) = m_rand b"
  "m_db (record_sample env b) = m_db b"
  "m_done (record_sample env b) = m_done b"
  "m_next_report (record_sample env b) = m_next_report b"
  "m_message (record_sample env b) = m_message b"
  "stdout (record_sample env b) = stdout b"
  by (simp_all add: record_sample_def now_seconds_def print_err_def Let_def)

lemma FinishedSingleOp_fields [simp]:
  "calls (FinishedSingleOp env flags b) = calls b"
  "engine (FinishedSingleOp env flags b) = engine b"
  "m_num (FinishedSingleOp env flags b) = m_num b"
  "m_bytes (FinishedSingleOp env flags b) = m_bytes b"
  "m_gen (FinishedSingleOp env flags b) = m_gen b"
  "m_rand (FinishedSingleOp env flags b) = m_rand b"
  "m_db (FinishedSingleOp env flags b) = m_db b"
  "m_message (FinishedSingleOp env flags b) = m_message b"
  "stdout (FinishedSingleOp env flags b) = stdout b"
  by (simp_all add: FinishedSingleOp_def print_err_def Let_def)

lemma Start_fields [simp]:
  "calls (Start env b) = calls b"
  "engine (Start env b) = engine b"
  "m_num (Start env b) = m_num b"
  "m_bytes (Start env b) = 0"
  "m_gen (Start env b) = m_gen b"
  "m_rand (Start env b) = m_rand b"
  "m_db (Start env b) = m_db b"
  "m_message (Start env b) = []"
  "stdout (Start env b) = stdout b"
  "stderr (Start env b) = stderr b"
  by (simp_all add: Start_def now_seconds_def Let_def)

lemma Stop_fields [simp]:
  "calls (Stop env flags name b) = calls b"
  "engine (Stop env flags name b) = engine b"
  "m_num (Stop env flags name b) = m_num b"
  "m_bytes (Stop env flags name b) = m_bytes b"
  "m_gen (Stop env flags name b) = m_gen b"
  "m_rand (Stop env flags name b) = m_rand b"
  "m_db (Stop env flags name b) = m_db b"
  "stderr (Stop env flags name b) = stderr b"
  by (simp_all add: Stop_def now_seconds_def print_out_def Let_def)

text \<open>
  C6. \<open>Stop\<close> prints the summary line with the elapsed time divided by the number of
  operations, where a count below 1 (so a count of zero) is replaced by 1: the divisor is at
  least 1. The message of the line starts with the rate in MB/s when the byte counter is
  strictly positive, and is the message of the phase alone when it is not.
\<close>

theorem Stop_summary:
  "(let finish = real (NowMicros env (clock b)) / 1000000;
        rate = snprintf100
                 (fmt_5_1f env ((real_of_int (m_bytes b) / 1048576) / (finish - m_start b))
                  @ '' MB/s'');
        msg = (if 0 < m_bytes b
               then rate @ (if m_message b = [] then [] else '' '' @ m_message b)
               else m_message b);
        ops = (if m_done b < 1 then 1 else m_done b)
    in stdout (Stop env flags name b) =
         stdout b
         @ [Out_summary name ((finish - m_start b) * 1000000 / real_of_int ops)
              (if msg = [] then [] else '' '') msg]
         @ (if FLAGS_histogram flags then [Out_histogram (m_hist b)] else [])
       \<and> 1 \<le> ops \<and> m_done (Stop env flags name b) = ops)"
  by (simp add: Stop_def now_seconds_def print_out_def Let_def snprintf100_def)

lemma strchr_None: "c \<notin> set s \<Longrightarrow> strchr s c = None"
  by (induction s) auto

lemma strchr_append: "c \<notin> set s \<Longrightarrow> strchr (s @ c # t) c = Some (length s)"
  by (induction s) auto

lemma next_benchmark_last: "CHR '','' \<notin> set name \<Longrightarrow> next_benchmark name = (name, None)"
  by (simp add: next_benchmark_def strchr_None)

lemma next_benchmark_comma:
  "CHR '','' \<notin> set name \<Longrightarrow> next_benchmark (name @ CHR '','' # rest) = (name, Some rest)"
  by (simp add: next_benchmark_def strchr_append)

lemma Run_benchmark_unknown:
  "name \<notin> set known_benchmarks \<Longrightarrow>
     Run_benchmark env flags name b =
       Inr (Stop env flags name (print_err (Err_unknown name) (Start env b)))"
  by (simp add: Run_benchmark_def known_benchmarks_def Let_def)

text \<open>
  C8. For a name that is none of the names \<open>Run\<close> compares with, the turn of the loop prints
  the warning \<^verbatim>\<open>unknown benchmark\<close> to the diagnostic stream, makes no call to the engine
  and leaves its state as it is, does not end the run, and the loop goes on with the names
  that follow.
\<close>

theorem unknown_benchmark_skipped:
  assumes "name \<notin> set known_benchmarks" and "CHR '','' \<notin> set name"
  shows "(let b' = Stop env flags name (print_err (Err_unknown name) (Start env b))
          in Run_benchmark env flags name b = Inr b'
           \<and> calls b' = calls b \<and> engine b' = engine b
           \<and> stderr b' = stderr b @ [Err_unknown name]
           \<and> Run_loop env flags (Some (name @ CHR '','' # rest)) b = Run_loop env flags (Some rest) b'
           \<and> Run_loop env flags (Some name) b = Inr b')"
  using assms
  by (simp add: Run_benchmark_unknown Run_loop.simps next_benchmark_comma next_benchmark_last
      print_err_def Let_def)

theorem unknown_benchmark_skipped_witness:
  "(let b' = Stop mem_env example_flags ''bogus''
               (print_err (Err_unknown ''bogus'') (Start mem_env example_bench))
    in Run_benchmark mem_env example_flags ''bogus'' example_bench = Inr b'
       \<and> calls b' = calls example_bench \<and> engine b' = engine example_bench
       \<and> stderr b' = stderr example_bench @ [Err_unknown ''bogus'']
       \<and> Run_loop mem_env example_flags (Some (''bogus'' @ CHR '','' # ''compact'')) example_bench =
           Run_loop mem_env example_flags (Some ''compact'') b'
       \<and> Run_loop mem_env example_flags (Some ''bogus'') example_bench = Inr b')"
  using unknown_benchmark_skipped [of "''bogus''" mem_env example_flags example_bench "''compact''"]
  by (simp add: known_benchmarks_def)

subsection \<open>Formatted keys\<close>

lemma digit_in: "d < 10 \<Longrightarrow> digit d \<in> set ''0123456789''"
proof -
  assume "d < 10"
  then have "d \<in> {0, 1, 2, 3, 4, 5, 6, 7, 8, 9}" by auto
  then show ?thesis by (auto simp: digit_def)
qed

lemma dec_digits: "set (dec n) \<subseteq> set ''0123456789''"
proof (induction n rule: dec.induct)
  case (1 n)
  show ?case
  proof (cases "n < 10")
    case True
    with digit_in [of n] show ?thesis by (subst dec.simps) simp
  next
    case False
    with 1 digit_in [of "n mod 10"] show ?thesis by (subst dec.simps) simp
  qed
qed

lemma dec_length: "n < 10 ^ m \<Longrightarrow> 0 < m \<Longrightarrow> length (dec n) \<le> m"
proof (induction n arbitrary: m rule: dec.induct)
  case (1 n)
  show ?case
  proof (cases "n < 10")
    case True
    with 1 show ?thesis by (subst dec.simps) simp
  next
    case False
    from 1(3) obtain m' where m: "m = Suc m'" by (cases m) auto
    with 1(2) have d: "n div 10 < 10 ^ m'" by (simp add: less_mult_imp_div_less mult.commute)
    have "0 < m'"
    proof (rule ccontr)
      assume "\<not> 0 < m'"
      with m 1(2) False show False by simp
    qed
    with 1(1) [OF False d] have "length (dec (n div 10)) \<le> m'" by simp
    with False m show ?thesis by (subst dec.simps) simp
  qed
qed

lemma dec_length_int: "in_int k \<Longrightarrow> length (dec (nat \<bar>k\<bar>)) \<le> 10"
  by (rule dec_length) (auto simp: in_int_def INT_MIN_def INT_MAX_def)

lemma dec_nonempty: "dec n \<noteq> []"
  by (subst dec.simps) simp

lemma fmt_0d_length: "in_int k \<Longrightarrow> length (fmt_0d 16 k) = 16"
  using dec_length_int [of k] by (cases "k < 0") (simp_all add: fmt_0d_def Let_def)

lemma snprintf100_key: "in_int k \<Longrightarrow> snprintf100 (fmt_0d 16 k) = fmt_0d 16 k"
  by (simp add: snprintf100_def fmt_0d_length)

lemma fmt_0d_chars: "set (fmt_0d w k) \<subseteq> set ''-0123456789''"
  using dec_digits [of "nat \<bar>k\<bar>"] by (auto simp: fmt_0d_def Let_def)

lemma fmt_0d_nonempty: "fmt_0d w k \<noteq> []"
  by (simp add: fmt_0d_def Let_def dec_nonempty)

lemma key_char_less_tilde: "c \<in> set ''-0123456789'' \<Longrightarrow> c < CHR ''~''"
  by (auto simp: less_char_def)

lemma key_less_tilde: "fmt_0d w k < ''~''"
proof -
  obtain c cs where e: "fmt_0d w k = c # cs" using fmt_0d_nonempty [of w k] by (cases "fmt_0d w k") auto
  with fmt_0d_chars [of w k] have "c \<in> set ''-0123456789''" by auto
  then have "c < CHR ''~''" by (rule key_char_less_tilde)
  with e show ?thesis by simp
qed

subsection \<open>Compaction\<close>

lemma upto_Cons: "i \<le> j \<Longrightarrow> [i..j] = i # [i + 1..j]"
  by (simp add: upto_rec1)

lemma Compact_scan_result:
  "Compact_scan env level m b =
     (last (m # filter (has_files env (engine b)) [level..kNumLevels env - 1]),
      b\<lparr>calls := calls b @ map (\<lambda>l. Call_GetProperty (property_name l)
                                    (DB_GetProperty env (property_name l) (engine b)))
                             [level..kNumLevels env - 1]\<rparr>)"
proof (induction env level m b rule: Compact_scan.induct)
  case (1 env level m b)
  show ?case
  proof (cases "level < kNumLevels env")
    case True
    then have u: "[level..kNumLevels env - 1] = level # [level + 1..kNumLevels env - 1]"
      by (simp add: upto_Cons)
    note IH = 1 [OF True refl refl refl refl]
    show ?thesis
      by (subst Compact_scan.simps)
         (simp add: True IH u Let_def, simp add: log_call_def has_files_def split: option.splits)
  next
    case False
    then show ?thesis by (subst Compact_scan.simps) simp
  qed
qed

lemma Compact_ranges_result:
  "Compact_ranges env level m b =
     b\<lparr>engine := fold (\<lambda>l. TEST_CompactRange env l [] ''~'') [level..m - 1] (engine b),
       calls := calls b @ map (\<lambda>l. Call_CompactRange l [] ''~'') [level..m - 1]\<rparr>"
proof (induction env level m b rule: Compact_ranges.induct)
  case (1 env level m b)
  show ?case
  proof (cases "level < m")
    case True
    then have u: "[level..m - 1] = level # [level + 1..m - 1]" by (simp add: upto_Cons)
    note IH = 1 [OF True]
    show ?thesis
      by (subst Compact_ranges.simps) (simp add: True IH u, simp add: log_call_def)
  next
    case False
    then show ?thesis by (subst Compact_ranges.simps) simp
  qed
qed

text \<open>
  C4. \<open>Compact\<close> first has the memtable compacted, then asks for the property
  \<^verbatim>\<open>leveldb.num-files-at-level\<close> of every level from 1 up to \<open>kNumLevels - 1\<close>, in the state
  of the engine after that, and then requests the compaction of the range from the empty
  string to \<^verbatim>\<open>"~"\<close> for every level from 0 up to but excluding \<open>m\<close>, where \<open>m\<close>
  (\<^verbatim>\<open>max_level_with_files\<close>) is the highest of these levels that reports at least one file,
  or 1 when none does. Every key that the harness formats sorts after the empty string and
  before \<^verbatim>\<open>"~"\<close>.
\<close>

theorem Compact_calls:
  "(let e1 = TEST_CompactMemTable env (engine b);
        m = last (1 # filter (has_files env e1) [1..kNumLevels env - 1])
    in calls (Compact env b) =
         calls b @ [Call_CompactMemTable]
         @ map (\<lambda>l. Call_GetProperty (property_name l) (DB_GetProperty env (property_name l) e1))
             [1..kNumLevels env - 1]
         @ map (\<lambda>l. Call_CompactRange l [] ''~'') [0..m - 1]
       \<and> 1 \<le> m \<and> (m = 1 \<or> has_files env e1 m)
       \<and> (\<forall>l. m < l \<and> l < kNumLevels env \<longrightarrow> \<not> has_files env e1 l)
       \<and> (\<forall>k. [] < fmt_0d 16 k \<and> fmt_0d 16 k < ''~''))"
proof -
  define e1 where "e1 = TEST_CompactMemTable env (engine b)"
  define hs where "hs = filter (has_files env e1) [1..kNumLevels env - 1]"
  define m where "m = last (1 # hs)"
  have c: "calls (Compact env b) =
         calls b @ [Call_CompactMemTable]
         @ map (\<lambda>l. Call_GetProperty (property_name l) (DB_GetProperty env (property_name l) e1))
             [1..kNumLevels env - 1]
         @ map (\<lambda>l. Call_CompactRange l [] ''~'') [0..m - 1]"
    by (simp add: Compact_def Compact_scan_result Compact_ranges_result log_call_def Let_def
        e1_def hs_def m_def)
  have hs_sorted: "sorted hs" unfolding hs_def by (rule sorted_wrt_filter) simp
  have hs_set: "set hs = {l. 1 \<le> l \<and> l < kNumLevels env \<and> has_files env e1 l}"
    unfolding hs_def by auto
  have m1: "1 \<le> m"
  proof (cases "hs = []")
    case True then show ?thesis by (simp add: m_def)
  next
    case False
    then have "last hs \<in> set hs" by simp
    with False hs_set show ?thesis by (simp add: m_def)
  qed
  have m2: "m = 1 \<or> has_files env e1 m"
  proof (cases "hs = []")
    case True then show ?thesis by (simp add: m_def)
  next
    case False
    then have "last hs \<in> set hs" by simp
    with False hs_set show ?thesis by (simp add: m_def)
  qed
  have m3: "\<not> has_files env e1 l" if "m < l" "l < kNumLevels env" for l
  proof
    assume h: "has_files env e1 l"
    from m1 that have "l \<in> set hs" using h hs_set by simp
    then have ne: "hs \<noteq> []" by auto
    from \<open>l \<in> set hs\<close> obtain i where i: "i < length hs" "hs ! i = l" by (auto simp: in_set_conv_nth)
    from i have a: "i \<le> length hs - 1" by simp
    from ne have b: "length hs - 1 < length hs" by simp
    have "hs ! i \<le> hs ! (length hs - 1)"
      by (rule sorted_nth_mono [OF hs_sorted a b])
    then have "l \<le> last hs" unfolding last_conv_nth [OF ne] i(2) .
    with ne that show False by (simp add: m_def)
  qed
  have k: "[] < fmt_0d 16 k \<and> fmt_0d 16 k < ''~''" for k
    using fmt_0d_nonempty [of 16 k] key_less_tilde [of 16 k] by (cases "fmt_0d 16 k") simp_all
  show ?thesis
    unfolding Let_def e1_def [symmetric] hs_def [symmetric] m_def [symmetric]
    using c m1 m2 m3 k by blast
qed

theorem Compact_calls_witness:
  "calls (Compact example_levels_env example_bench) =
     [Call_DestroyDB, Call_CompactMemTable,
      Call_GetProperty ''leveldb.num-files-at-level1'' (Some 0),
      Call_GetProperty ''leveldb.num-files-at-level2'' (Some 4),
      Call_GetProperty ''leveldb.num-files-at-level3'' (Some 0),
      Call_GetProperty ''leveldb.num-files-at-level4'' (Some 0),
      Call_GetProperty ''leveldb.num-files-at-level5'' (Some 0),
      Call_GetProperty ''leveldb.num-files-at-level6'' (Some 0),
      Call_CompactRange 0 [] ''~'', Call_CompactRange 1 [] ''~'']"
proof -
  have k: "kNumLevels example_levels_env = 7"
    by (simp add: example_levels_env_def mem_env_def)
  have n: "map property_name [1, 2, 3, 4, 5, 6] =
      [''leveldb.num-files-at-level1'', ''leveldb.num-files-at-level2'',
       ''leveldb.num-files-at-level3'', ''leveldb.num-files-at-level4'',
       ''leveldb.num-files-at-level5'', ''leveldb.num-files-at-level6'']"
    by (simp add: property_name_def snprintf100_def fmt_d_def dec.simps digit_def)
  have u: "[1..6::int] = [1, 2, 3, 4, 5, 6]" "[0..1::int] = [0, 1]" by (simp_all add: upto_rec1)
  from Compact_calls [of example_levels_env example_bench] k n u show ?thesis
    by (simp add: Let_def has_files_def example_levels_env_def mem_env_def example_bench_def
        Benchmark_init_def)
qed

subsection \<open>The sequential read phases\<close>

lemma visit_calls_simps [simp]:
  "visit_calls [] = []"
  "visit_calls ((k, v) # es) = Call_key k # Call_value v # visit_calls es"
  by (simp_all add: visit_calls_def)

lemma visited_keys_visit_calls: "visited_keys (visit_calls es) = map fst es"
  by (induction es) auto

lemma new_calls_append: "calls b' = calls b @ cs \<Longrightarrow> new_calls b b' = cs"
  by (simp add: new_calls_def)

lemma ReadSequential_loop_result:
  "0 \<le> it_pos iter \<Longrightarrow>
   calls (ReadSequential_loop env flags iter i b) =
     calls b @ visit_calls (take (nat (m_num b - i)) (drop (nat (it_pos iter)) (it_entries iter)))
   \<and> engine (ReadSequential_loop env flags iter i b) = engine b
   \<and> m_num (ReadSequential_loop env flags iter i b) = m_num b"
proof (induction env flags iter i b rule: ReadSequential_loop.induct)
  case (1 env flags iter i b)
  show ?case
  proof (cases "i < m_num b \<and> Valid iter")
    case True
    then have lt: "nat (it_pos iter) < length (it_entries iter)" and n: "0 < m_num b - i"
      using 1(2) by (simp_all add: Valid_def nat_less_iff)
    from 1(2) have p: "0 \<le> it_pos (Next iter)" by (simp add: Next_def)
    note IH = 1(1) [OF True refl refl p]
    have d: "drop (nat (it_pos iter)) (it_entries iter) =
             (it_entries iter ! nat (it_pos iter)) # drop (nat (it_pos iter + 1)) (it_entries iter)"
      using lt 1(2) by (simp add: Cons_nth_drop_Suc nat_add_distrib)
    from n have t: "nat (m_num b - i) = Suc (nat (m_num b - (i + 1)))" by simp
    show ?thesis
      apply (subst (1 2 3) ReadSequential_loop.simps)
      using True apply (simp add: Let_def IH)
      apply (simp add: log_call_def d t Next_def it_key_def it_value_def split: prod.splits)
      apply (cases "it_entries iter ! nat (it_pos iter)")
      apply simp
      done
  next
    case False
    then have "nat (m_num b - i) = 0 \<or> drop (nat (it_pos iter)) (it_entries iter) = []"
      using 1(2) by (auto simp: Valid_def)
    with False show ?thesis
      by (subst (1 2 3) ReadSequential_loop.simps) auto
  qed
qed


lemma ReadReverse_loop_result:
  "- 1 \<le> it_pos iter \<Longrightarrow> it_pos iter < int (length (it_entries iter)) \<Longrightarrow>
   calls (ReadReverse_loop env flags iter i b) =
     calls b @ visit_calls (take (nat (m_num b - i))
                              (rev (take (nat (it_pos iter + 1)) (it_entries iter))))
   \<and> engine (ReadReverse_loop env flags iter i b) = engine b
   \<and> m_num (ReadReverse_loop env flags iter i b) = m_num b"
proof (induction env flags iter i b rule: ReadReverse_loop.induct)
  case (1 env flags iter i b)
  show ?case
  proof (cases "i < m_num b \<and> Valid iter")
    case True
    then have lt: "nat (it_pos iter) < length (it_entries iter)" and n: "0 < m_num b - i"
      and p0: "0 \<le> it_pos iter"
      using 1(3) by (simp_all add: Valid_def nat_less_iff)
    from p0 1(3) have p: "- 1 \<le> it_pos (Prev iter)"
      "it_pos (Prev iter) < int (length (it_entries (Prev iter)))" by (simp_all add: Prev_def)
    note IH = 1(1) [OF True refl refl p]
    from p0 have "nat (it_pos iter + 1) = Suc (nat (it_pos iter))" by simp
    with lt have d: "rev (take (nat (it_pos iter + 1)) (it_entries iter)) =
             (it_entries iter ! nat (it_pos iter)) # rev (take (nat (it_pos iter)) (it_entries iter))"
      by (simp add: take_Suc_conv_app_nth)
    from n have t: "nat (m_num b - i) = Suc (nat (m_num b - (i + 1)))" by simp
    show ?thesis
      apply (subst (1 2 3) ReadReverse_loop.simps)
      using True apply (simp add: Let_def IH)
      apply (simp add: log_call_def d t Prev_def it_key_def it_value_def split: prod.splits)
      apply (cases "it_entries iter ! nat (it_pos iter)")
      apply simp
      done
  next
    case False
    then have "nat (m_num b - i) = 0 \<or> take (nat (it_pos iter + 1)) (it_entries iter) = []"
      using 1(2,3) by (auto simp: Valid_def)
    with False show ?thesis
      by (subst (1 2 3) ReadReverse_loop.simps) auto
  qed
qed

lemma ReadSequential_calls:
  "calls (ReadSequential env flags b) =
     calls b @ Call_NewIterator # visit_calls (take (nat (m_num b)) (DB_NewIterator env (engine b)))"
  "engine (ReadSequential env flags b) = engine b"
  "m_num (ReadSequential env flags b) = m_num b"
  by (simp_all add: ReadSequential_def Let_def SeekToFirst_def ReadSequential_loop_result log_call_def)

lemma ReadReverse_calls:
  "calls (ReadReverse env flags b) =
     calls b @ Call_NewIterator
       # visit_calls (take (nat (m_num b)) (rev (DB_NewIterator env (engine b))))"
  "engine (ReadReverse env flags b) = engine b"
  "m_num (ReadReverse env flags b) = m_num b"
  by (simp_all add: ReadReverse_def Let_def SeekToLast_def ReadReverse_loop_result log_call_def)

text \<open>The definitions that a run on the example engine unfolds to.\<close>

lemmas example_defs =
  mem_env_def example_flags_def example_bench_def example_buf_def
  Benchmark_init_def RandomGenerator_init_def

lemmas run_defs =
  Run_benchmark_def Write_def Write_fresh_def Write_loop.simps Write_body_def Open_def Start_def Stop_def
  FinishedSingleOp_def Generate_def Generate_return_def slice_bytes_def log_call_def
  print_err_def print_out_def now_seconds_def in_int_def INT_MAX_def INT_MIN_def
  to_size_t_def to_int32_def to_int64_def to_uint32_def snprintf100_def final_state_def ok_def
  Random_key_def c_div_def

lemma fmt_0d_examples:
  "fmt_0d 16 0 = ''0000000000000000''" "fmt_0d 16 1 = ''0000000000000001''"
  "fmt_0d 16 2 = ''0000000000000002''"
  by (simp_all add: fmt_0d_def dec.simps digit_def numeral_eq_Suc)

lemma replicate_2: "replicate 2 x = [x, x]"
  by (simp add: numeral_2_eq_2)

subsection \<open>The write phases\<close>

lemma ok_iff: "ok s \<longleftrightarrow> s = OK"
  by (simp add: ok_def)

lemma ok_simps [simp]: "ok OK" "\<not> ok (NotOK m)"
  by (simp_all add: ok_def)

text \<open>The key integer of the turn \<open>i\<close> of the loop of \<open>Write\<close>.\<close>

lemma Write_body_Inr:
  assumes "Write_body env flags sync order v i b = Inr b'"
  obtains k val sl where
    "order = SEQUENTIAL \<longrightarrow> k = i"
    "order = RANDOM \<longrightarrow> to_uint32 (FLAGS_num flags) \<noteq> 0 \<and>
       k = to_int32 ((int (Random_Next env (m_rand b)) mod 2 ^ 32) mod to_uint32 (FLAGS_num flags))"
    "Generate (m_gen b) v = Inr (sl, m_gen b')"
    "slice_bytes (m_data (m_gen b')) sl = Some val"
    "calls b' = calls b @ [Call_Write sync [(snprintf100 (fmt_0d 16 k), val)] OK]"
    "m_bytes b' = to_int64 (m_bytes b + to_size_t v + int (length (snprintf100 (fmt_0d 16 k))))"
    "m_num b' = m_num b"
  using assms
  by (cases order)
     (auto simp: Write_body_def Random_key_def Let_def log_call_def print_err_def ok_iff
        split: if_splits sum.splits prod.splits option.splits)

lemma Generate_Inl: "Generate g v = Inl f \<Longrightarrow> f = AssertFailed \<or> f = Undefined"
  by (auto simp: Generate_def split: if_splits)

lemma Write_body_Inl:
  assumes "Write_body env flags sync order v i b = Inl (f, bf)"
  shows "(f = Exit 1 \<and>
          (\<exists>k val s. \<not> ok s
             \<and> (order = SEQUENTIAL \<longrightarrow> k = i)
             \<and> (order = RANDOM \<longrightarrow> to_uint32 (FLAGS_num flags) \<noteq> 0 \<and>
                  k = to_int32 ((int (Random_Next env (m_rand b)) mod 2 ^ 32)
                                 mod to_uint32 (FLAGS_num flags)))
             \<and> calls bf = calls b @ [Call_Write sync [(snprintf100 (fmt_0d 16 k), val)] s]
             \<and> stderr bf = stderr b @ [Err_put (ToString s)]))
       \<or> ((f = AssertFailed \<or> f = Undefined) \<and> calls bf = calls b \<and> stderr bf = stderr b)"
  using assms
  by (cases order)
     (auto simp: Write_body_def Random_key_def Let_def log_call_def print_err_def
        split: if_splits sum.splits prod.splits option.splits dest: Generate_Inl)


lemma written_append: "written (xs @ ys) = written xs @ written ys"
  by (induction xs rule: written.induct) auto

lemma to_int32_id: "0 \<le> x \<Longrightarrow> x \<le> INT_MAX \<Longrightarrow> to_int32 x = x"
  by (simp add: to_int32_def INT_MAX_def Let_def)

lemma to_int32_range: "in_int (to_int32 x)"
proof -
  have "0 \<le> x mod 2 ^ 32" "x mod 2 ^ 32 < 2 ^ 32" by simp_all
  then show ?thesis by (auto simp: to_int32_def in_int_def INT_MIN_def INT_MAX_def Let_def)
qed

lemma random_key_range:
  assumes "0 < n" and "in_int n"
  shows "0 \<le> to_int32 ((r mod 2 ^ 32) mod to_uint32 n)
         \<and> to_int32 ((r mod 2 ^ 32) mod to_uint32 n) < n"
proof -
  from assms have u: "to_uint32 n = n" by (simp add: to_uint32_def in_int_def INT_MAX_def)
  from assms have lo: "0 \<le> (r mod 2 ^ 32) mod n" and hi: "(r mod 2 ^ 32) mod n < n"
    by simp_all
  from hi assms(2) have "(r mod 2 ^ 32) mod n \<le> INT_MAX" unfolding in_int_def by linarith
  with lo have "to_int32 ((r mod 2 ^ 32) mod n) = (r mod 2 ^ 32) mod n"
    by (rule to_int32_id)
  with lo hi u show ?thesis by simp
qed

lemma Write_loop_done: "\<not> i < n \<Longrightarrow> Write_loop env flags sync order v i n b = Inr b"
  by (subst Write_loop.simps) simp

lemma Write_loop_Inl:
  "i < n \<Longrightarrow> Write_body env flags sync order v i b = Inl f \<Longrightarrow>
     Write_loop env flags sync order v i n b = Inl f"
  by (subst Write_loop.simps) simp

lemma Write_loop_Inr:
  "i < n \<Longrightarrow> Write_body env flags sync order v i b = Inr b1 \<Longrightarrow>
     Write_loop env flags sync order v i n b = Write_loop env flags sync order v (i + 1) n b1"
  by (subst Write_loop.simps) simp

text \<open>The keys of a sequential loop that ends without a fatal outcome.\<close>

lemma Write_loop_sequential:
  "Write_loop env flags sync order v i n b = Inr b' \<Longrightarrow> order = SEQUENTIAL \<Longrightarrow>
   0 \<le> i \<Longrightarrow> in_int n \<Longrightarrow>
     \<exists>cs. calls b' = calls b @ cs
        \<and> map (map fst) (written cs) = map (\<lambda>j. [fmt_0d 16 j]) [i..n - 1]
        \<and> m_num b' = m_num b"
proof (induction env flags sync order v i n b rule: Write_loop.induct)
  case (1 env flags sync order v i n b)
  show ?case
  proof (cases "i < n")
    case False
    with 1(2) have "b' = b" by (simp add: Write_loop_done)
    with False show ?thesis by simp
  next
    case True
    show ?thesis
    proof (cases "Write_body env flags sync order v i b")
      case (Inl f)
      with True 1(2) show ?thesis by (simp add: Write_loop_Inl)
    next
      case (Inr b1)
      with True 1(2) have l: "Write_loop env flags sync order v (i + 1) n b1 = Inr b'"
        by (simp add: Write_loop_Inr)
      from 1(4) have "0 \<le> i + 1" by simp
      from 1(1) [OF True Inr l 1(3) this 1(5)] obtain cs where
        cs: "calls b' = calls b1 @ cs"
          "map (map fst) (written cs) = map (\<lambda>j. [fmt_0d 16 j]) [i + 1..n - 1]"
          "m_num b' = m_num b1" by blast
      from Write_body_Inr [OF Inr] obtain k val where
        k: "order = SEQUENTIAL \<longrightarrow> k = i"
          "calls b1 = calls b @ [Call_Write sync [(snprintf100 (fmt_0d 16 k), val)] OK]"
          "m_num b1 = m_num b" by metis
      from True 1(4,5) have "in_int i" by (simp add: in_int_def INT_MIN_def)
      with k 1(3) have c1: "calls b1 = calls b @ [Call_Write sync [(fmt_0d 16 i, val)] OK]"
        by (simp add: snprintf100_key)
      from True have u: "[i..n - 1] = i # [i + 1..n - 1]" by (simp add: upto_Cons)
      from cs c1 k u show ?thesis by (simp add: written_append)
    qed
  qed
qed


lemma Open_Inr:
  assumes "Open env flags b = Inr b'"
  shows "\<exists>opts. calls b' = calls b @ [Call_Open opts OK]"
    and "stderr b' = stderr b" and "m_num b' = m_num b" and "m_gen b' = m_gen b"
    and "m_bytes b' = m_bytes b"
  using assms
  by (auto simp: Open_def Let_def log_call_def print_err_def ok_iff split: if_splits prod.splits)

lemma Open_Inl:
  assumes "Open env flags b = Inl (f, bf)"
  shows "(f = AssertFailed \<and> m_db b \<and> bf = b)
       \<or> (f = Exit 1 \<and> (\<exists>opts s. \<not> ok s \<and> calls bf = calls b @ [Call_Open opts s]
                             \<and> stderr bf = stderr b @ [Err_open (ToString s)]))"
  using assms
  by (auto simp: Open_def Let_def log_call_def print_err_def split: if_splits prod.splits)

lemma Write_fresh_Inr:
  assumes "Write_fresh env flags b = Inr b'"
  shows "\<exists>pre. calls b' = calls b @ pre \<and> written pre = [] \<and> \<not> list_ex failed_call pre"
    and "stderr b' = stderr b" and "m_num b' = m_num b" and "m_gen b' = m_gen b"
    and "m_bytes b' = 0"
proof -
  define b3 where "b3 =
    log_call Call_DestroyDB
      ((if m_db b then log_call Call_Delete (b\<lparr>engine := DB_Delete env (engine b)\<rparr>) else b)
        \<lparr>m_db := False, engine := DestroyDB env (engine (if m_db b then log_call Call_Delete (b\<lparr>engine := DB_Delete env (engine b)\<rparr>) else b))\<rparr>)"
  from assms obtain b4 where o: "Open env flags b3 = Inr b4" and b': "b' = Start env b4"
    by (auto simp: Write_fresh_def Let_def b3_def split: sum.splits)
  have c3: "\<exists>pre. calls b3 = calls b @ pre \<and> written pre = [] \<and> \<not> list_ex failed_call pre"
    by (auto simp: b3_def log_call_def)
  have f3: "stderr b3 = stderr b" "m_num b3 = m_num b" "m_gen b3 = m_gen b"
    by (auto simp: b3_def log_call_def)
  from Open_Inr [OF o] c3 f3 b'
  show "\<exists>pre. calls b' = calls b @ pre \<and> written pre = [] \<and> \<not> list_ex failed_call pre"
    and "stderr b' = stderr b" and "m_num b' = m_num b" and "m_gen b' = m_gen b"
    and "m_bytes b' = 0"
    by (auto simp: written_append)
qed


lemma Write_fresh_Inl:
  assumes "Write_fresh env flags b = Inl (f, bf)"
  shows "f = Exit 1 \<and>
         (\<exists>pre opts s. \<not> ok s \<and> calls bf = calls b @ pre @ [Call_Open opts s]
            \<and> written pre = [] \<and> \<not> list_ex failed_call pre
            \<and> stderr bf = stderr b @ [Err_open (ToString s)])"
proof -
  define b3 where "b3 =
    log_call Call_DestroyDB
      ((if m_db b then log_call Call_Delete (b\<lparr>engine := DB_Delete env (engine b)\<rparr>) else b)
        \<lparr>m_db := False, engine := DestroyDB env (engine (if m_db b then log_call Call_Delete (b\<lparr>engine := DB_Delete env (engine b)\<rparr>) else b))\<rparr>)"
  from assms have o: "Open env flags b3 = Inl (f, bf)"
    by (auto simp: Write_fresh_def Let_def b3_def split: sum.splits)
  have c3: "\<exists>pre. calls b3 = calls b @ pre \<and> written pre = [] \<and> \<not> list_ex failed_call pre"
    by (auto simp: b3_def log_call_def)
  have f3: "stderr b3 = stderr b" "\<not> m_db b3"
    by (auto simp: b3_def log_call_def)
  from Open_Inl [OF o] c3 f3 show ?thesis by auto
qed

text \<open>The state in which the loop of \<open>Write\<close> starts.\<close>

lemma Write_Inr:
  assumes "Write env flags sync order state n v b = Inr b'"
  obtains b6 pre where
    "Write_loop env flags sync order v 0 n b6 = Inr b'"
    "calls b6 = calls b @ pre" "written pre = []" "\<not> list_ex failed_call pre"
    "stderr b6 = stderr b" "m_num b6 = m_num b" "m_gen b6 = m_gen b"
    "m_bytes b6 = (if state = FRESH then 0 else m_bytes b)"
proof (cases "state = FRESH")
  case True
  with assms obtain b5 where f: "Write_fresh env flags b = Inr b5"
    and l: "Write_loop env flags sync order v 0 n
              (if n \<noteq> m_num b5
               then b5\<lparr>m_message := snprintf100 (''('' @ fmt_d n @ '' ops)'')\<rparr> else b5) = Inr b'"
    by (auto simp: Write_def Let_def split: sum.splits)
  from Write_fresh_Inr [OF f] True l that show ?thesis by (auto split: if_splits)
next
  case False
  with assms have l: "Write_loop env flags sync order v 0 n
              (if n \<noteq> m_num b
               then b\<lparr>m_message := snprintf100 (''('' @ fmt_d n @ '' ops)'')\<rparr> else b) = Inr b'"
    by (auto simp: Write_def Let_def)
  with False that [of _ "[]"] show ?thesis by (auto split: if_splits)
qed


lemma of_char_digit: "d < 10 \<Longrightarrow> of_char (digit d) = 48 + d"
proof -
  assume "d < 10"
  then have "d \<in> {0, 1, 2, 3, 4, 5, 6, 7, 8, 9}" by auto
  then show ?thesis by (auto simp: digit_def)
qed

lemma decimal_value_snoc:
  "decimal_value (s @ [c]) = 10 * decimal_value s + (of_char c - 48)"
  by (simp add: decimal_value_def)

lemma decimal_value_dec: "decimal_value (dec n) = n"
proof (induction n rule: dec.induct)
  case (1 n)
  show ?case
  proof (cases "n < 10")
    case True
    then show ?thesis
      by (subst dec.simps) (simp add: decimal_value_def of_char_digit)
  next
    case False
    with 1 show ?thesis
      by (subst dec.simps) (simp add: decimal_value_snoc of_char_digit)
  qed
qed

lemma decimal_value_zeros: "decimal_value (replicate z (CHR ''0'') @ s) = decimal_value s"
  by (induction z) (simp_all add: decimal_value_def)

lemma fmt_0d_nonneg:
  "0 \<le> k \<Longrightarrow> fmt_0d w k = replicate (w - length (dec (nat k))) (CHR ''0'') @ dec (nat k)"
  by (simp add: fmt_0d_def Let_def)

lemma Run_benchmark_fillseq:
  "Run_benchmark env flags ''fillseq'' b =
     (case Write env flags False SEQUENTIAL FRESH (m_num b) (FLAGS_value_size flags) (Start env b)
      of Inl f \<Rightarrow> Inl f | Inr b1 \<Rightarrow> Inr (Stop env flags ''fillseq'' b1))"
  by (simp add: Run_benchmark_def Let_def)

text \<open>
  C1. When the phase \<^verbatim>\<open>fillseq\<close> ends without a fatal outcome, with \<open>N\<close> the entry count
  \<open>num_\<close> (an \<^verbatim>\<open>int\<close>), it has issued exactly \<open>N\<close> writes (none when \<open>N\<close> is not positive),
  each of a batch with a single key, and the keys are, in this order, the numbers
  \<open>0, 1, \<dots>, N - 1\<close> printed with \<^verbatim>\<open>%016d\<close>: sixteen characters, the decimal digits of the
  number after the zeros that fill the width.
\<close>

theorem fillseq_keys:
  assumes "Run_benchmark env flags ''fillseq'' b = Inr b'" and "in_int (m_num b)"
  shows "(let N = m_num b; ws = written (new_calls b b')
          in int (length ws) = max 0 N
           \<and> map (map fst) ws = map (\<lambda>j. [fmt_0d 16 j]) [0..N - 1]
           \<and> (\<forall>j \<in> set [0..N - 1].
                 length (fmt_0d 16 j) = 16
               \<and> fmt_0d 16 j = replicate (16 - length (dec (nat j))) (CHR ''0'') @ dec (nat j)
               \<and> decimal_value (fmt_0d 16 j) = nat j))"
proof -
  from assms(1) obtain b1 where
    w: "Write env flags False SEQUENTIAL FRESH (m_num b) (FLAGS_value_size flags) (Start env b) = Inr b1"
    and b': "b' = Stop env flags ''fillseq'' b1"
    by (auto simp: Run_benchmark_fillseq split: sum.splits)
  from Write_Inr [OF w] obtain b6 pre where
    l: "Write_loop env flags False SEQUENTIAL (FLAGS_value_size flags) 0 (m_num b) b6 = Inr b1"
    and p: "calls b6 = calls (Start env b) @ pre" "written pre = []" by metis
  from Write_loop_sequential [OF l refl _ assms(2)] obtain cs where
    cs: "calls b1 = calls b6 @ cs"
      "map (map fst) (written cs) = map (\<lambda>j. [fmt_0d 16 j]) [0..m_num b - 1]" by auto
  from b' cs p have n: "new_calls b b' = pre @ cs" by (simp add: new_calls_def)
  with p cs have k: "map (map fst) (written (new_calls b b')) =
      map (\<lambda>j. [fmt_0d 16 j]) [0..m_num b - 1]" by (simp add: written_append)
  from arg_cong [OF k, of length] have len: "int (length (written (new_calls b b'))) = max 0 (m_num b)"
    by simp
  have r: "length (fmt_0d 16 j) = 16
      \<and> fmt_0d 16 j = replicate (16 - length (dec (nat j))) (CHR ''0'') @ dec (nat j)
      \<and> decimal_value (fmt_0d 16 j) = nat j" if "j \<in> set [0..m_num b - 1]" for j
  proof -
    from that assms(2) have j: "0 \<le> j" "in_int j" by (auto simp: in_int_def INT_MIN_def)
    then show ?thesis
      by (simp add: fmt_0d_length fmt_0d_nonneg [symmetric])
         (simp add: fmt_0d_nonneg decimal_value_zeros decimal_value_dec)
  qed
  show ?thesis unfolding Let_def using k len r by blast
qed


text \<open>On the example engine, \<^verbatim>\<open>fillseq\<close> with three entries of two bytes.\<close>

lemma example_fillseq:
  "Run_benchmark mem_env example_flags ''fillseq'' example_bench = Inr example_filled"
  by (simp add: example_filled_def run_defs example_defs Let_def fmt_0d_examples
      less_char_def replicate_2)

lemma example_bench_num: "m_num example_bench = 3"
  by (simp add: example_defs)

theorem fillseq_keys_witness:
  "length (written (new_calls example_bench example_filled)) = 3
   \<and> map (map fst) (written (new_calls example_bench example_filled)) =
       [[''0000000000000000''], [''0000000000000001''], [''0000000000000002'']]"
proof -
  have i: "in_int (m_num example_bench)"
    by (simp add: example_bench_num in_int_def INT_MIN_def INT_MAX_def)
  have u: "[0..2::int] = [0, 1, 2]" by (simp add: upto_rec1)
  from fillseq_keys [OF example_fillseq i] u show ?thesis
    by (simp add: Let_def example_bench_num fmt_0d_examples)
qed

lemma final_state_simps [simp]:
  "final_state (Inl (f, b)) = b" "final_state (Inr b) = b"
  by (simp_all add: final_state_def)

lemma new_calls_same [simp]: "new_calls b b = []"
  by (simp add: new_calls_def)

text \<open>The keys of a loop in random order, however it ends.\<close>

lemma Write_loop_random_keys:
  "order = RANDOM \<Longrightarrow> 0 < FLAGS_num flags \<Longrightarrow> in_int (FLAGS_num flags) \<Longrightarrow>
     \<exists>cs. calls (final_state (Write_loop env flags sync order v i n b)) = calls b @ cs
        \<and> list_all (\<lambda>batch. \<exists>k val. batch = [(fmt_0d 16 k, val)] \<and> 0 \<le> k \<and> k < FLAGS_num flags)
             (written cs)"
proof (induction env flags sync order v i n b rule: Write_loop.induct)
  case (1 env flags sync order v i n b)
  let ?P = "\<lambda>batch. \<exists>k val. batch = [(fmt_0d 16 k, val)] \<and> 0 \<le> k \<and> k < FLAGS_num flags"
  have key: "?P [(snprintf100 (fmt_0d 16 k), val)]"
    if "order = RANDOM \<longrightarrow> to_uint32 (FLAGS_num flags) \<noteq> 0 \<and>
         k = to_int32 ((int (Random_Next env (m_rand b)) mod 2 ^ 32) mod to_uint32 (FLAGS_num flags))"
    for k val
  proof -
    from that 1(2) random_key_range [OF 1(3,4)] have r: "0 \<le> k" "k < FLAGS_num flags" by simp_all
    with 1(4) have "in_int k" by (simp add: in_int_def INT_MIN_def)
    with r show ?thesis by (auto simp: snprintf100_key)
  qed
  show ?case
  proof (cases "i < n")
    case False
    then show ?thesis by (simp add: Write_loop_done)
  next
    case True
    show ?thesis
    proof (cases "Write_body env flags sync order v i b")
      case (Inl fb)
      obtain f bf where fb: "fb = (f, bf)" by (cases fb)
      from Write_body_Inl [OF Inl [unfolded fb]] key True Inl fb show ?thesis
        by (auto simp: Write_loop_Inl)
    next
      case (Inr b1)
      from 1(1) [OF True Inr 1(2,3,4)] obtain cs where
        cs: "calls (final_state (Write_loop env flags sync order v (i + 1) n b1)) = calls b1 @ cs"
          "list_all ?P (written cs)" by blast
      from Write_body_Inr [OF Inr] obtain k val where
        k: "order = RANDOM \<longrightarrow> to_uint32 (FLAGS_num flags) \<noteq> 0 \<and>
              k = to_int32 ((int (Random_Next env (m_rand b)) mod 2 ^ 32)
                            mod to_uint32 (FLAGS_num flags))"
          "calls b1 = calls b @ [Call_Write sync [(snprintf100 (fmt_0d 16 k), val)] OK]"
        by metis
      from key [OF k(1)] cs k(2) True Inr show ?thesis
        by (simp add: Write_loop_Inr written_append)
    qed
  qed
qed

text \<open>The keys of a loop in sequential order, however it ends.\<close>

lemma Write_loop_sequential_keys:
  "order = SEQUENTIAL \<Longrightarrow> 0 \<le> i \<Longrightarrow> in_int n \<Longrightarrow>
     \<exists>cs. calls (final_state (Write_loop env flags sync order v i n b)) = calls b @ cs
        \<and> map (map fst) (written cs) =
            map (\<lambda>j. [fmt_0d 16 j]) [i..i + int (length (written cs)) - 1]"
proof (induction env flags sync order v i n b rule: Write_loop.induct)
  case (1 env flags sync order v i n b)
  show ?case
  proof (cases "i < n")
    case False
    then show ?thesis by (simp add: Write_loop_done)
  next
    case True
    with 1(3,4) have ii: "in_int i" by (simp add: in_int_def INT_MIN_def)
    show ?thesis
    proof (cases "Write_body env flags sync order v i b")
      case (Inl fb)
      obtain f bf where fb: "fb = (f, bf)" by (cases fb)
      from Write_body_Inl [OF Inl [unfolded fb]] 1(2) ii True Inl fb show ?thesis
        by (auto simp: Write_loop_Inl snprintf100_key)
    next
      case (Inr b1)
      from 1(3) have "0 \<le> i + 1" by simp
      from 1(1) [OF True Inr 1(2) this 1(4)] obtain cs where
        cs: "calls (final_state (Write_loop env flags sync order v (i + 1) n b1)) = calls b1 @ cs"
          "map (map fst) (written cs) =
             map (\<lambda>j. [fmt_0d 16 j]) [i + 1..i + 1 + int (length (written cs)) - 1]" by blast
      from Write_body_Inr [OF Inr] obtain k val where
        k: "order = SEQUENTIAL \<longrightarrow> k = i"
          "calls b1 = calls b @ [Call_Write sync [(snprintf100 (fmt_0d 16 k), val)] OK]"
        by metis
      have u: "[i..i + int (length (written cs))] = i # [i + 1..i + int (length (written cs))]"
        by (simp add: upto_Cons)
      from cs k 1(2) ii True Inr u show ?thesis
        by (simp add: Write_loop_Inr written_append snprintf100_key add.commute)
    qed
  qed
qed


text \<open>\<open>Write\<close> either fails to open the engine or runs its loop, after calls that are
  not writes.\<close>

lemma Write_cases:
  obtains (open_failed) pre opts s bf where
      "Write env flags sync order state n v b = Inl (Exit 1, bf)"
      "calls bf = calls b @ pre @ [Call_Open opts s]" "written pre = []"
      "\<not> ok s" "\<not> list_ex failed_call pre" "stderr bf = stderr b @ [Err_open (ToString s)]"
  | (loop) b6 pre where
      "Write env flags sync order state n v b = Write_loop env flags sync order v 0 n b6"
      "calls b6 = calls b @ pre" "written pre = []" "\<not> list_ex failed_call pre"
      "stderr b6 = stderr b" "m_num b6 = m_num b" "m_gen b6 = m_gen b"
      "m_bytes b6 = (if state = FRESH then 0 else m_bytes b)"
proof (cases "state = FRESH")
  case False
  let ?b6 = "if n \<noteq> m_num b
             then b\<lparr>m_message := snprintf100 (''('' @ fmt_d n @ '' ops)'')\<rparr> else b"
  from False have "Write env flags sync order state n v b = Write_loop env flags sync order v 0 n ?b6"
    by (simp add: Write_def Let_def)
  with False loop [of ?b6 "[]"] show ?thesis by (auto split: if_splits)
next
  case True
  show ?thesis
  proof (cases "Write_fresh env flags b")
    case (Inl fb)
    obtain f bf where fb: "fb = (f, bf)" by (cases fb)
    from True Inl fb have "Write env flags sync order state n v b = Inl (f, bf)"
      by (simp add: Write_def)
    with Write_fresh_Inl [OF Inl [unfolded fb]] open_failed show ?thesis by auto
  next
    case (Inr b5)
    let ?b6 = "if n \<noteq> m_num b5
               then b5\<lparr>m_message := snprintf100 (''('' @ fmt_d n @ '' ops)'')\<rparr> else b5"
    from True Inr have "Write env flags sync order state n v b = Write_loop env flags sync order v 0 n ?b6"
      by (simp add: Write_def Let_def)
    with Write_fresh_Inr [OF Inr] True loop [of ?b6] show ?thesis by (auto split: if_splits)
  qed
qed

lemma Write_random_keys:
  assumes "0 < FLAGS_num flags" and "in_int (FLAGS_num flags)"
  shows "list_all (\<lambda>batch. \<exists>k val. batch = [(fmt_0d 16 k, val)] \<and> 0 \<le> k \<and> k < FLAGS_num flags)
           (written (new_calls b (final_state (Write env flags sync RANDOM state n v b))))"
proof (cases rule: Write_cases [of env flags sync RANDOM state n v b])
  case (open_failed pre opts s bf)
  then show ?thesis by (simp add: new_calls_def written_append)
next
  case (loop b6 pre)
  from Write_loop_random_keys [OF refl assms, of env sync v 0 n b6] loop show ?thesis
    by (auto simp: new_calls_def written_append)
qed

lemma Write_sequential_keys:
  assumes "in_int n"
  shows "map (map fst) (written (new_calls b (final_state (Write env flags sync SEQUENTIAL state n v b)))) =
           map (\<lambda>j. [fmt_0d 16 j])
             [0..int (length (written (new_calls b (final_state (Write env flags sync SEQUENTIAL state n v b))))) - 1]"
proof (cases rule: Write_cases [of env flags sync SEQUENTIAL state n v b])
  case (open_failed pre opts s bf)
  then show ?thesis by (simp add: new_calls_def written_append)
next
  case (loop b6 pre)
  from Write_loop_sequential_keys [OF refl _ assms, of 0 env flags sync v b6] loop show ?thesis
    by (auto simp: new_calls_def written_append)
qed

lemma Write_no_entries:
  assumes "n \<le> 0"
  shows "written (new_calls b (final_state (Write env flags sync order state n v b))) = []"
proof (cases rule: Write_cases [of env flags sync order state n v b])
  case (open_failed pre opts s bf)
  then show ?thesis by (simp add: new_calls_def written_append)
next
  case (loop b6 pre)
  with assms show ?thesis by (simp add: Write_loop_done new_calls_def)
qed

lemma c_div_nonpos: "a \<le> 0 \<Longrightarrow> 0 < d \<Longrightarrow> c_div a d \<le> 0"
  by (cases "a = 0") (simp_all add: c_div_def mult_le_0_iff pos_imp_zdiv_nonneg_iff)

lemma new_calls_Start [simp]: "new_calls (Start env b) b' = new_calls b b'"
  by (simp add: new_calls_def)

lemma new_calls_Stop [simp]: "new_calls b (Stop env flags name b') = new_calls b b'"
  by (simp add: new_calls_def)

lemma final_state_Stop:
  "final_state (case r of Inl f \<Rightarrow> Inl f | Inr b1 \<Rightarrow> Inr (Stop env flags name b1)) =
     (case r of Inl f \<Rightarrow> snd f | Inr b1 \<Rightarrow> Stop env flags name b1)"
  by (cases r) (auto simp: final_state_def split: prod.splits)

lemma new_calls_final_Stop:
  "new_calls b (final_state (case r of Inl f \<Rightarrow> Inl f | Inr b1 \<Rightarrow> Inr (Stop env flags name b1))) =
     new_calls b (final_state r)"
  by (cases r) (auto simp: final_state_def split: prod.splits)

text \<open>
  C3. In a harness whose entry count \<open>num_\<close> is \<^verbatim>\<open>FLAGS_num\<close> (as the constructor sets it), every
  write of the phases \<^verbatim>\<open>fillrandom\<close>, \<^verbatim>\<open>overwrite\<close>, \<^verbatim>\<open>fillsync\<close> and \<^verbatim>\<open>fill100K\<close> has a
  single key, printed from a key integer \<open>k\<close> with \<open>0 \<le> k < FLAGS_num\<close>, also in the phases that
  write \<^verbatim>\<open>num_ / 100\<close> or \<^verbatim>\<open>num_ / 1000\<close> entries; in the phase \<^verbatim>\<open>fillseq\<close> the key integer of
  the \<open>j\<close>-th write is \<open>j\<close>, the index of the loop. This holds however the phase ends.
\<close>

theorem write_phase_keys:
  assumes "m_num b = FLAGS_num flags" and "in_int (FLAGS_num flags)"
  shows "(let ws = written (new_calls b (final_state (Run_benchmark env flags name b)))
          in (name \<in> {''fillrandom'', ''overwrite'', ''fillsync'', ''fill100K''} \<longrightarrow>
                list_all (\<lambda>batch. \<exists>k val. batch = [(fmt_0d 16 k, val)] \<and> 0 \<le> k \<and> k < FLAGS_num flags) ws)
           \<and> (name = ''fillseq'' \<longrightarrow>
                map (map fst) ws = map (\<lambda>j. [fmt_0d 16 j]) [0..int (length ws) - 1]))"
proof -
  let ?P = "\<lambda>batch. \<exists>k val. batch = [(fmt_0d 16 k, val)] \<and> 0 \<le> k \<and> k < FLAGS_num flags"
  have r: "list_all ?P (written (new_calls b (final_state (Write env flags sync RANDOM state n v (Start env b)))))"
    if "n \<le> 0 \<or> 0 < FLAGS_num flags" for sync state n v
  proof (cases "0 < FLAGS_num flags")
    case True
    from Write_random_keys [OF True assms(2), of "Start env b"] show ?thesis by simp
  next
    case False
    with that have "n \<le> 0" by simp
    from Write_no_entries [OF this, of "Start env b"] show ?thesis by simp
  qed
  have n: "n \<le> 0 \<or> 0 < FLAGS_num flags"
    if "n = FLAGS_num flags \<or> n = c_div (FLAGS_num flags) 100 \<or> n = c_div (FLAGS_num flags) 1000" for n
    using that c_div_nonpos [of "FLAGS_num flags" 100] c_div_nonpos [of "FLAGS_num flags" 1000]
    by (cases "0 < FLAGS_num flags") auto
  from assms(2) Write_sequential_keys [of "FLAGS_num flags" "Start env b"]
  have s: "map (map fst) (written (new_calls b (final_state (Write env flags False SEQUENTIAL FRESH (FLAGS_num flags) v (Start env b))))) =
           map (\<lambda>j. [fmt_0d 16 j])
             [0..int (length (written (new_calls b (final_state (Write env flags False SEQUENTIAL FRESH (FLAGS_num flags) v (Start env b)))))) - 1]" for v
    by simp
  show ?thesis
    using r n s assms(1) by (auto simp: Run_benchmark_def Let_def new_calls_final_Stop)
qed


text \<open>On the example engine the generator returns 5, 12, 19: the keys are 2, 0, 1.\<close>

lemma example_fillrandom:
  "written (new_calls example_bench
      (final_state (Run_benchmark mem_env example_flags ''fillrandom'' example_bench))) =
     [[(''0000000000000002'', ''xx'')], [(''0000000000000000'', ''xx'')],
      [(''0000000000000001'', ''xx'')]]"
  by (simp add: run_defs example_defs Let_def fmt_0d_examples less_char_def replicate_2
      new_calls_def)

theorem write_phase_keys_witness:
  "written (new_calls example_bench
      (final_state (Run_benchmark mem_env example_flags ''fillrandom'' example_bench))) =
     [[(''0000000000000002'', ''xx'')], [(''0000000000000000'', ''xx'')],
      [(''0000000000000001'', ''xx'')]]
   \<and> list_all (\<lambda>batch. \<exists>k val. batch = [(fmt_0d 16 k, val)] \<and> 0 \<le> k \<and> k < 3)
       (written (new_calls example_bench
          (final_state (Run_benchmark mem_env example_flags ''fillrandom'' example_bench))))
   \<and> map (map fst) (written (new_calls example_bench example_filled)) =
       map (\<lambda>j. [fmt_0d 16 j]) [0..int (length (written (new_calls example_bench example_filled))) - 1]"
proof -
  have h: "m_num example_bench = FLAGS_num example_flags" "in_int (FLAGS_num example_flags)"
    "FLAGS_num example_flags = 3"
    by (simp_all add: example_defs in_int_def INT_MIN_def INT_MAX_def)
  from write_phase_keys [OF h(1,2), of mem_env "''fillrandom''"] h(3)
  have r: "list_all (\<lambda>batch. \<exists>k val. batch = [(fmt_0d 16 k, val)] \<and> 0 \<le> k \<and> k < 3)
       (written (new_calls example_bench
          (final_state (Run_benchmark mem_env example_flags ''fillrandom'' example_bench))))"
    by (simp add: Let_def)
  from write_phase_keys [OF h(1,2), of mem_env "''fillseq''"]
  have "map (map fst) (written (new_calls example_bench example_filled)) =
       map (\<lambda>j. [fmt_0d 16 j]) [0..int (length (written (new_calls example_bench example_filled))) - 1]"
    by (simp add: Let_def example_filled_def)
  with r example_fillrandom show ?thesis by blast
qed

lemma to_int64_id: "0 \<le> x \<Longrightarrow> x < 2 ^ 63 \<Longrightarrow> to_int64 x = x"
  by (simp add: to_int64_def Let_def)

lemma Generate_Inr_data:
  "Generate g v = Inr (sl, g') \<Longrightarrow> m_data g' = m_data g \<and> slice_size sl = to_size_t v"
  by (auto simp: Generate_def Generate_return_def Let_def split: if_splits)

text \<open>A turn of the loop that writes has a value size that is not negative, and adds the
  value size and the sixteen characters of the key to the byte counter.\<close>

lemma Write_body_bytes:
  assumes w: "Write_body env flags sync order v i b = Inr b'"
    and v: "in_int v" and sz: "int (length (m_data (m_gen b))) \<le> 2 ^ 30"
    and i: "order = SEQUENTIAL \<longrightarrow> in_int i"
  shows "0 \<le> v" and "m_bytes b' = to_int64 (m_bytes b + v + 16)"
    and "m_data (m_gen b') = m_data (m_gen b)"
proof -
  from Write_body_Inr [OF w] obtain k val sl where
    k: "order = SEQUENTIAL \<longrightarrow> k = i"
      "order = RANDOM \<longrightarrow> to_uint32 (FLAGS_num flags) \<noteq> 0 \<and>
         k = to_int32 ((int (Random_Next env (m_rand b)) mod 2 ^ 32) mod to_uint32 (FLAGS_num flags))"
    and g: "Generate (m_gen b) v = Inr (sl, m_gen b')"
    and s: "slice_bytes (m_data (m_gen b')) sl = Some val"
    and bts: "m_bytes b' = to_int64 (m_bytes b + to_size_t v + int (length (snprintf100 (fmt_0d 16 k))))"
    by metis
  from Generate_Inr_data [OF g] have d: "m_data (m_gen b') = m_data (m_gen b)"
    and ss: "slice_size sl = to_size_t v" by simp_all
  from s have "0 \<le> slice_off sl \<and> slice_off sl + slice_size sl \<le> int (length (m_data (m_gen b')))"
    by (simp add: slice_bytes_def split: if_splits)
  with d ss sz have le: "to_size_t v \<le> 2 ^ 30" by simp
  show v0: "0 \<le> v"
  proof (rule ccontr)
    assume "\<not> 0 \<le> v"
    with v have "to_size_t v \<ge> 2 ^ 63" by (intro to_size_t_neg) (simp_all add: in_int_def)
    with le show False by simp
  qed
  with v have tv: "to_size_t v = v" by (intro to_size_t_id) (simp_all add: in_int_def)
  have "in_int k"
  proof (cases order)
    case SEQUENTIAL
    with k i show ?thesis by simp
  next
    case RANDOM
    with k show ?thesis by (simp add: to_int32_range)
  qed
  then have "length (snprintf100 (fmt_0d 16 k)) = 16" by (simp add: snprintf100_key fmt_0d_length)
  with bts tv show "m_bytes b' = to_int64 (m_bytes b + v + 16)" by simp
  from d show "m_data (m_gen b') = m_data (m_gen b)" .
qed

lemma Write_loop_bytes:
  "Write_loop env flags sync order v i n b = Inr b' \<Longrightarrow> 0 \<le> i \<Longrightarrow> i \<le> n \<Longrightarrow> in_int n \<Longrightarrow>
   in_int v \<Longrightarrow> int (length (m_data (m_gen b))) \<le> 2 ^ 30 \<Longrightarrow> 0 \<le> m_bytes b \<Longrightarrow>
   m_bytes b + (n - i) * (2 ^ 31 + 16) < 2 ^ 63 \<Longrightarrow>
     m_bytes b' = m_bytes b + (n - i) * (v + 16)"
proof (induction env flags sync order v i n b rule: Write_loop.induct)
  case (1 env flags sync order v i n b)
  show ?case
  proof (cases "i < n")
    case False
    with 1(2,4) show ?thesis by (simp add: Write_loop_done)
  next
    case True
    with 1(3,5) have ii: "in_int i" by (simp add: in_int_def INT_MIN_def)
    show ?thesis
    proof (cases "Write_body env flags sync order v i b")
      case (Inl f)
      with True 1(2) show ?thesis by (simp add: Write_loop_Inl)
    next
      case (Inr b1)
      with True 1(2) have l: "Write_loop env flags sync order v (i + 1) n b1 = Inr b'"
        by (simp add: Write_loop_Inr)
      from Write_body_bytes [OF Inr 1(6,7)] ii
      have v0: "0 \<le> v" and bts: "m_bytes b1 = to_int64 (m_bytes b + v + 16)"
        and d: "m_data (m_gen b1) = m_data (m_gen b)" by simp_all
      from 1(6) have vm: "v + 16 \<le> 2 ^ 31 + 16" by (simp add: in_int_def INT_MAX_def)
      from True have "(n - i) * (2 ^ 31 + 16) = (n - (i + 1)) * (2 ^ 31 + 16) + (2 ^ 31 + 16)"
        by (simp add: algebra_simps)
      moreover from True have "0 \<le> (n - (i + 1)) * (2 ^ 31 + 16)" by simp
      ultimately have bound: "m_bytes b + v + 16 + (n - (i + 1)) * (2 ^ 31 + 16) < 2 ^ 63"
        "m_bytes b + v + 16 < 2 ^ 63"
        using 1(9) vm by linarith+
      with 1(8) v0 bts have b1: "m_bytes b1 = m_bytes b + v + 16" by (simp add: to_int64_id)
      from 1(3) True have i1: "0 \<le> i + 1" "i + 1 \<le> n" by simp_all
      from b1 1(8) v0 have nn: "0 \<le> m_bytes b1" by simp
      from bound b1 have bb: "m_bytes b1 + (n - (i + 1)) * (2 ^ 31 + 16) < 2 ^ 63" by simp
      from d 1(7) have dd: "int (length (m_data (m_gen b1))) \<le> 2 ^ 30" by simp
      from 1(1) [OF True Inr l i1 1(5,6) dd nn bb] b1 show ?thesis
        by (simp add: algebra_simps)
    qed
  qed
qed

text \<open>
  C9. When \<open>Write\<close> for \<open>n \<ge> 0\<close> entries of value size \<open>v\<close> (both of type \<^verbatim>\<open>int\<close>) ends without
  a fatal outcome, on a byte counter that \<open>Start\<close> has reset (\<open>Write\<close> resets it itself for a
  fresh database), the byte counter is exactly \<open>n * (v + 16)\<close>: the 64-bit counter does not
  wrap around, and every key printed from an \<^verbatim>\<open>int\<close> has exactly 16 characters.
\<close>

theorem Write_bytes:
  assumes "Write env flags sync order state n v b = Inr b'"
    and "0 \<le> n" and "in_int n" and "in_int v"
    and "int (length (m_data (m_gen b))) \<le> 2 ^ 30"
    and "state = EXISTING \<longrightarrow> m_bytes b = 0"
  shows "m_bytes b' = n * (v + 16) \<and> (\<forall>k. in_int k \<longrightarrow> length (fmt_0d 16 k) = 16)"
proof -
  from Write_Inr [OF assms(1)] obtain b6 where
    l: "Write_loop env flags sync order v 0 n b6 = Inr b'"
    and g: "m_gen b6 = m_gen b"
    and bts: "m_bytes b6 = (if state = FRESH then 0 else m_bytes b)" by metis
  from bts assms(6) have z: "m_bytes b6 = 0" by (cases state) simp_all
  from assms(3) have "n \<le> 2 ^ 31 - 1" by (simp add: in_int_def INT_MAX_def)
  then have "n * (2 ^ 31 + 16) \<le> (2 ^ 31 - 1) * (2 ^ 31 + 16)" by (intro mult_right_mono) simp_all
  then have "n * (2 ^ 31 + 16) < 2 ^ 63" by simp
  with Write_loop_bytes [OF l _ assms(2,3,4)] g z assms(5) show ?thesis
    by (simp add: fmt_0d_length)
qed

text \<open>The phase \<^verbatim>\<open>overwrite\<close> after \<^verbatim>\<open>fillseq\<close> on the example engine: three entries of two
  bytes.\<close>

theorem Write_bytes_witness:
  "Write mem_env example_flags False RANDOM EXISTING 3 2 (Start mem_env example_filled) =
     Inr (final_state
            (Write mem_env example_flags False RANDOM EXISTING 3 2 (Start mem_env example_filled)))
   \<and> m_bytes (final_state
        (Write mem_env example_flags False RANDOM EXISTING 3 2 (Start mem_env example_filled))) = 54"
proof -
  have w: "Write mem_env example_flags False RANDOM EXISTING 3 2 (Start mem_env example_filled) =
     Inr (final_state
            (Write mem_env example_flags False RANDOM EXISTING 3 2 (Start mem_env example_filled)))"
    by (simp add: example_filled_def run_defs example_defs Let_def fmt_0d_examples less_char_def
        replicate_2)
  have d: "m_data (m_gen example_filled) = example_buf"
    by (simp add: example_filled_def run_defs example_defs Let_def fmt_0d_examples less_char_def
        replicate_2)
  have h: "(0::int) \<le> 3" "in_int 3" "in_int 2"
    "int (length (m_data (m_gen (Start mem_env example_filled)))) \<le> 2 ^ 30"
    "EXISTING = EXISTING \<longrightarrow> m_bytes (Start mem_env example_filled) = 0"
    by (simp_all add: in_int_def INT_MIN_def INT_MAX_def d example_buf_def)
  from Write_bytes [OF w h] w show ?thesis by simp
qed

subsection \<open>Fatal errors\<close>

lemma fails_fast_Inr:
  "calls b' = calls b @ cs \<Longrightarrow> \<not> list_ex failed_call cs \<Longrightarrow> fails_fast b (Inr b')"
  by (auto simp: fails_fast_def)

lemma fails_fast_same: "calls b' = calls b \<Longrightarrow> fails_fast b (Inr b')"
  by (rule fails_fast_Inr [of _ _ "[]"]) simp_all

lemma fails_fast_quiet:
  "calls bf = calls b @ cs \<Longrightarrow> \<not> list_ex failed_call cs \<Longrightarrow> f = AssertFailed \<or> f = Undefined \<Longrightarrow>
     fails_fast b (Inl (f, bf))"
  by (auto simp: fails_fast_def)

lemma fails_fast_exit:
  "calls bf = calls b @ cs @ [c] \<Longrightarrow> \<not> list_ex failed_call cs \<Longrightarrow> failed_call c \<Longrightarrow>
   stderr bf = es @ [l] \<Longrightarrow> error_line c = Some l \<Longrightarrow> fails_fast b (Inl (Exit 1, bf))"
  by (auto simp: fails_fast_def intro!: exI [of _ "cs @ [c]"])

text \<open>A part that fails fast after a part that ended without a fatal outcome.\<close>

lemma fails_fast_trans:
  assumes "fails_fast b (Inr b1)" and "fails_fast b1 r"
  shows "fails_fast b r"
proof -
  from assms(1) obtain cs1 where c1: "calls b1 = calls b @ cs1" "\<not> list_ex failed_call cs1"
    by (auto simp: fails_fast_def)
  from assms(2) obtain cs2 where c2: "calls (final_state r) = calls b1 @ cs2"
    and r: "case r of
           Inl (f, bf) \<Rightarrow>
             (if f = Exit 1
              then cs2 \<noteq> [] \<and> failed_call (last cs2) \<and> \<not> list_ex failed_call (butlast cs2)
                   \<and> stderr bf \<noteq> [] \<and> error_line (last cs2) = Some (last (stderr bf))
              else (f = AssertFailed \<or> f = Undefined) \<and> \<not> list_ex failed_call cs2)
         | Inr b' \<Rightarrow> \<not> list_ex failed_call cs2"
    by (auto simp: fails_fast_def)
  from c1 c2 have c: "calls (final_state r) = calls b @ (cs1 @ cs2)" by simp
  show ?thesis
    unfolding fails_fast_def
  proof (intro exI conjI)
    show "calls (final_state r) = calls b @ (cs1 @ cs2)" by (rule c)
    show "case r of
           Inl (f, bf) \<Rightarrow>
             (if f = Exit 1
              then cs1 @ cs2 \<noteq> [] \<and> failed_call (last (cs1 @ cs2))
                   \<and> \<not> list_ex failed_call (butlast (cs1 @ cs2))
                   \<and> stderr bf \<noteq> [] \<and> error_line (last (cs1 @ cs2)) = Some (last (stderr bf))
              else (f = AssertFailed \<or> f = Undefined) \<and> \<not> list_ex failed_call (cs1 @ cs2))
         | Inr b' \<Rightarrow> \<not> list_ex failed_call (cs1 @ cs2)"
      using r c1(2) by (auto split: sum.splits prod.splits if_splits simp: butlast_append)
  qed
qed

lemma fails_fast_Open: "fails_fast b (Open env flags b)"
proof (cases "Open env flags b")
  case (Inr b')
  from Open_Inr(1) [OF Inr] obtain opts where "calls b' = calls b @ [Call_Open opts OK]" ..
  with Inr show ?thesis by (auto intro: fails_fast_Inr)
next
  case (Inl fb)
  obtain f bf where fb: "fb = (f, bf)" by (cases fb)
  from Open_Inl [OF Inl [unfolded fb]] show ?thesis
  proof
    assume "f = AssertFailed \<and> m_db b \<and> bf = b"
    with Inl fb show ?thesis by (auto intro: fails_fast_quiet [of _ _ "[]"])
  next
    assume "f = Exit 1 \<and> (\<exists>opts s. \<not> ok s \<and> calls bf = calls b @ [Call_Open opts s]
                             \<and> stderr bf = stderr b @ [Err_open (ToString s)])"
    then obtain opts s where "f = Exit 1" "\<not> ok s" "calls bf = calls b @ [] @ [Call_Open opts s]"
      "stderr bf = stderr b @ [Err_open (ToString s)]" by auto
    with Inl fb show ?thesis by (auto intro: fails_fast_exit)
  qed
qed

lemma fails_fast_Write_body: "fails_fast b (Write_body env flags sync order v i b)"
proof (cases "Write_body env flags sync order v i b")
  case (Inr b')
  from Write_body_Inr [OF Inr] obtain k val where
    "calls b' = calls b @ [Call_Write sync [(snprintf100 (fmt_0d 16 k), val)] OK]" by metis
  with Inr show ?thesis by (auto intro: fails_fast_Inr)
next
  case (Inl fb)
  obtain f bf where fb: "fb = (f, bf)" by (cases fb)
  from Write_body_Inl [OF Inl [unfolded fb]] show ?thesis
  proof
    assume "(f = AssertFailed \<or> f = Undefined) \<and> calls bf = calls b \<and> stderr bf = stderr b"
    with Inl fb show ?thesis by (auto intro: fails_fast_quiet [of _ _ "[]"])
  next
    assume "f = Exit 1 \<and>
          (\<exists>k val s. \<not> ok s
             \<and> (order = SEQUENTIAL \<longrightarrow> k = i)
             \<and> (order = RANDOM \<longrightarrow> to_uint32 (FLAGS_num flags) \<noteq> 0 \<and>
                  k = to_int32 ((int (Random_Next env (m_rand b)) mod 2 ^ 32)
                                 mod to_uint32 (FLAGS_num flags)))
             \<and> calls bf = calls b @ [Call_Write sync [(snprintf100 (fmt_0d 16 k), val)] s]
             \<and> stderr bf = stderr b @ [Err_put (ToString s)])"
    then obtain k val s where "f = Exit 1" "\<not> ok s"
      "calls bf = calls b @ [] @ [Call_Write sync [(snprintf100 (fmt_0d 16 k), val)] s]"
      "stderr bf = stderr b @ [Err_put (ToString s)]" by auto
    with Inl fb show ?thesis by (auto intro: fails_fast_exit)
  qed
qed

lemma fails_fast_Write_loop: "fails_fast b (Write_loop env flags sync order v i n b)"
proof (induction env flags sync order v i n b rule: Write_loop.induct)
  case (1 env flags sync order v i n b)
  show ?case
  proof (cases "i < n")
    case False
    then show ?thesis by (simp add: Write_loop_done fails_fast_same)
  next
    case True
    show ?thesis
    proof (cases "Write_body env flags sync order v i b")
      case (Inl f)
      with True fails_fast_Write_body [of b env flags sync order v i] show ?thesis
        by (simp add: Write_loop_Inl)
    next
      case (Inr b1)
      with fails_fast_Write_body [of b env flags sync order v i]
      have "fails_fast b (Inr b1)" by simp
      from fails_fast_trans [OF this 1 [OF True Inr]] True Inr show ?thesis
        by (simp add: Write_loop_Inr)
    qed
  qed
qed


lemma fails_fast_Write: "fails_fast b (Write env flags sync order state n v b)"
proof (cases rule: Write_cases [of env flags sync order state n v b])
  case (open_failed pre opts s bf)
  then show ?thesis by (auto intro: fails_fast_exit)
next
  case (loop b6 pre)
  then have "fails_fast b (Inr b6)" by (auto intro: fails_fast_Inr)
  from fails_fast_trans [OF this fails_fast_Write_loop] loop(1) show ?thesis by simp
qed

lemma Random_key_calls:
  "Random_key env flags b = Inl (f, bf) \<Longrightarrow> f = Undefined \<and> calls bf = calls b"
  "Random_key env flags b = Inr (k, b1) \<Longrightarrow> calls b1 = calls b"
  by (auto simp: Random_key_def Let_def split: if_splits)

lemma fails_fast_ReadRandom_loop: "fails_fast b (ReadRandom_loop env flags i n b)"
proof (induction env flags i n b rule: ReadRandom_loop.induct)
  case (1 env flags i n b)
  show ?case
  proof (cases "i < n")
    case False
    then show ?thesis by (subst ReadRandom_loop.simps) (simp add: fails_fast_same)
  next
    case True
    show ?thesis
    proof (cases "Random_key env flags b")
      case (Inl fb)
      obtain f bf where fb: "fb = (f, bf)" by (cases fb)
      from Random_key_calls(1) [OF Inl [unfolded fb]] True Inl fb show ?thesis
        by (subst ReadRandom_loop.simps) (auto intro: fails_fast_quiet [of _ _ "[]"])
    next
      case (Inr kb)
      obtain k b1 where kb: "kb = (k, b1)" by (cases kb)
      let ?b3 = "FinishedSingleOp env flags (log_call (Call_Get (snprintf100 (fmt_0d 16 k))) b1)"
      from Random_key_calls(2) [OF Inr [unfolded kb]]
      have "calls ?b3 = calls b @ [Call_Get (snprintf100 (fmt_0d 16 k))]"
        by (simp add: log_call_def)
      then have "fails_fast b (Inr ?b3)" by (auto intro: fails_fast_Inr)
      from fails_fast_trans [OF this 1 [OF True Inr [unfolded kb] refl refl refl]] True Inr kb
      show ?thesis by (subst ReadRandom_loop.simps) (simp add: Let_def)
    qed
  qed
qed

lemma visit_calls_not_failed: "\<not> list_ex failed_call (visit_calls es)"
  by (induction es) auto

lemma fails_fast_ReadSequential: "fails_fast b (Inr (ReadSequential env flags b))"
  by (rule fails_fast_Inr [OF ReadSequential_calls(1)]) (simp add: visit_calls_not_failed)

lemma fails_fast_ReadReverse: "fails_fast b (Inr (ReadReverse env flags b))"
  by (rule fails_fast_Inr [OF ReadReverse_calls(1)]) (simp add: visit_calls_not_failed)

lemma fails_fast_Compact: "fails_fast b (Inr (Compact env b))"
proof -
  have "\<exists>cs. calls (Compact env b) = calls b @ cs \<and> \<not> list_ex failed_call cs"
    by (simp add: Compact_def Compact_scan_result Compact_ranges_result log_call_def Let_def
        list_ex_iff) auto
  then show ?thesis by (auto intro: fails_fast_Inr)
qed

lemma fails_fast_HeapProfile: "fails_fast b (Inr (HeapProfile env b))"
proof -
  have "\<exists>cs. calls (HeapProfile env b) = calls b @ cs \<and> \<not> list_ex failed_call cs"
    by (simp add: HeapProfile_def log_call_def Let_def)
  then show ?thesis by (auto intro: fails_fast_Inr)
qed

lemma fails_fast_Start: "fails_fast (Start env b) r \<Longrightarrow> fails_fast b r"
  by (simp add: fails_fast_def)

lemma fails_fast_Stop:
  "fails_fast b r \<Longrightarrow>
     fails_fast b (case r of Inl f \<Rightarrow> Inl f | Inr b1 \<Rightarrow> Inr (Stop env flags name b1))"
  by (cases r) (auto simp: fails_fast_def)

lemma fails_fast_print_err: "fails_fast b (Inr (print_err l b))"
  by (rule fails_fast_same) (simp add: print_err_def)

lemma fails_fast_ReadRandom: "fails_fast b (ReadRandom env flags b)"
  by (simp add: ReadRandom_def fails_fast_ReadRandom_loop)

lemma fails_fast_Run_benchmark: "fails_fast b (Run_benchmark env flags name b)"
  unfolding Run_benchmark_def Let_def
  by (rule fails_fast_Stop, rule fails_fast_Start [of env])
     (simp add: fails_fast_Write fails_fast_ReadSequential fails_fast_ReadReverse
        fails_fast_ReadRandom fails_fast_Compact fails_fast_HeapProfile fails_fast_print_err)

lemma fails_fast_Run_loop: "fails_fast b (Run_loop env flags benchmarks b)"
proof (induction env flags benchmarks b rule: Run_loop.induct)
  case (1 env flags b)
  show ?case by (simp add: Run_loop.simps fails_fast_same)
next
  case (2 env flags benchmarks b)
  show ?case
  proof (cases "Run_benchmark env flags (fst (next_benchmark benchmarks)) b")
    case (Inl f)
    with fails_fast_Run_benchmark [of b env flags "fst (next_benchmark benchmarks)"]
    show ?thesis by (simp add: Run_loop.simps)
  next
    case (Inr b1)
    with fails_fast_Run_benchmark [of b env flags "fst (next_benchmark benchmarks)"]
    have "fails_fast b (Inr b1)" by simp
    from fails_fast_trans [OF this 2 [OF Inr]] Inr show ?thesis by (simp add: Run_loop.simps)
  qed
qed

lemma fails_fast_Run: "fails_fast b (Run env flags b)"
proof (cases "Open env flags b")
  case (Inl f)
  with fails_fast_Open [of b env flags] show ?thesis by (simp add: Run_def)
next
  case (Inr b1)
  with fails_fast_Open [of b env flags] have "fails_fast b (Inr b1)" by simp
  from fails_fast_trans [OF this fails_fast_Run_loop] Inr show ?thesis by (simp add: Run_def)
qed

text \<open>
  C7. In a run of the harness (after calls none of which failed), an \<^verbatim>\<open>Open\<close> or a \<^verbatim>\<open>Write\<close>
  returns a status that is not ok exactly when the run ends with \<^verbatim>\<open>exit(1)\<close>, and \<^verbatim>\<open>exit\<close> is
  called with no other status. The failed call is then the last call of the run, so it is not
  tried again and no later phase calls the engine, no call before it failed, and the last
  line printed to the diagnostic stream is the error line of the failed call
  (\<^verbatim>\<open>open error\<close> or \<^verbatim>\<open>put error\<close> with the text of the status).
\<close>

theorem failure_is_fatal:
  assumes "\<not> list_ex failed_call (calls b)"
  shows "(let r = Run env flags b; bf = final_state r
          in (list_ex failed_call (calls bf) \<longleftrightarrow> r = Inl (Exit 1, bf))
           \<and> (\<forall>n b'. r = Inl (Exit n, b') \<longrightarrow> n = 1)
           \<and> (list_ex failed_call (calls bf) \<longrightarrow>
                failed_call (last (calls bf)) \<and> \<not> list_ex failed_call (butlast (calls bf))
                \<and> stderr bf \<noteq> [] \<and> error_line (last (calls bf)) = Some (last (stderr bf))))"
proof -
  from fails_fast_Run [of b env flags] obtain cs where
    c: "calls (final_state (Run env flags b)) = calls b @ cs"
    and r: "case Run env flags b of
           Inl (f, bf) \<Rightarrow>
             (if f = Exit 1
              then cs \<noteq> [] \<and> failed_call (last cs) \<and> \<not> list_ex failed_call (butlast cs)
                   \<and> stderr bf \<noteq> [] \<and> error_line (last cs) = Some (last (stderr bf))
              else (f = AssertFailed \<or> f = Undefined) \<and> \<not> list_ex failed_call cs)
         | Inr b' \<Rightarrow> \<not> list_ex failed_call cs"
    by (auto simp: fails_fast_def)
  show ?thesis
  proof (cases "Run env flags b")
    case (Inr b')
    with c r assms show ?thesis by (simp add: Let_def)
  next
    case (Inl fb)
    obtain f bf where fb: "fb = (f, bf)" by (cases fb)
    show ?thesis
    proof (cases "f = Exit 1")
      case True
      with Inl fb r have l: "cs \<noteq> []" "failed_call (last cs)" by simp_all
      then have "last cs \<in> set cs" by simp
      with l have "list_ex failed_call cs" unfolding list_ex_iff by blast
      with True Inl fb c r assms show ?thesis by (simp add: Let_def butlast_append)
    next
      case False
      with Inl fb c r assms show ?thesis by (auto simp: Let_def)
    qed
  qed
qed


text \<open>On the engine with room for one entry, the second write of \<^verbatim>\<open>fillseq\<close> fails: the
  run ends there with \<^verbatim>\<open>exit(1)\<close>, the phase \<^verbatim>\<open>readseq\<close> that follows in the list does not
  run and no summary line is printed.\<close>

lemma example_full_run:
  "calls (final_state (Run example_full_env example_flags example_bench)) =
     [Call_DestroyDB,
      Call_Open \<lparr>create_if_missing = True, max_open_files = 10000, write_buffer_size = 1048576\<rparr> OK,
      Call_Delete, Call_DestroyDB,
      Call_Open \<lparr>create_if_missing = True, max_open_files = 10000, write_buffer_size = 1048576\<rparr> OK,
      Call_Write False [(''0000000000000000'', ''xx'')] OK,
      Call_Write False [(''0000000000000001'', ''xx'')]
        (NotOK ''IO error: no space left on device'')]"
  "stderr (final_state (Run example_full_env example_flags example_bench)) =
     [Err_put ''IO error: no space left on device'']"
  "stdout (final_state (Run example_full_env example_flags example_bench)) = []"
  by (simp_all add: Run_def Run_loop.simps next_benchmark_def example_full_env_def run_defs
      example_defs Let_def fmt_0d_examples less_char_def replicate_2 ToString_def)

theorem failure_is_fatal_witness:
  "Run example_full_env example_flags example_bench =
     Inl (Exit 1, final_state (Run example_full_env example_flags example_bench))
   \<and> last (calls (final_state (Run example_full_env example_flags example_bench))) =
       Call_Write False [(''0000000000000001'', ''xx'')] (NotOK ''IO error: no space left on device'')
   \<and> last (stderr (final_state (Run example_full_env example_flags example_bench))) =
       Err_put ''IO error: no space left on device''
   \<and> stdout (final_state (Run example_full_env example_flags example_bench)) = []"
proof -
  have h: "\<not> list_ex failed_call (calls example_bench)" by (simp add: example_defs)
  have f: "list_ex failed_call (calls (final_state (Run example_full_env example_flags example_bench)))"
    by (simp add: example_full_run)
  from failure_is_fatal [OF h, of example_full_env example_flags] f
  have "Run example_full_env example_flags example_bench =
     Inl (Exit 1, final_state (Run example_full_env example_flags example_bench))"
    by (simp add: Let_def)
  then show ?thesis by (simp add: example_full_run)
qed

subsection \<open>Completion of the sequential fill\<close>

text \<open>When the engine accepts every write, a turn of the loop for a value that is shorter
  than the buffer writes and keeps the cursor of the generator inside the buffer.\<close>

lemma Write_body_succeeds:
  assumes w: "\<And>sync batch e. fst (DB_Write env sync batch e) = OK"
    and sz: "int (length (m_data (m_gen b))) \<le> 2 ^ 30"
    and pos: "0 \<le> m_pos (m_gen b)" "m_pos (m_gen b) \<le> int (length (m_data (m_gen b)))"
    and v: "0 \<le> v" "v < int (length (m_data (m_gen b)))"
    and r: "order = RANDOM \<longrightarrow> to_uint32 (FLAGS_num flags) \<noteq> 0"
  shows "\<exists>b'. Write_body env flags sync order v i b = Inr b'
           \<and> m_data (m_gen b') = m_data (m_gen b)
           \<and> 0 \<le> m_pos (m_gen b') \<and> m_pos (m_gen b') \<le> int (length (m_data (m_gen b)))"
proof -
  from v sz have iv: "in_int v" by (simp add: in_int_def INT_MIN_def INT_MAX_def)
  note g = Generate_cases [OF sz pos v(1) iv]
  obtain k b1 where k: "(if order = SEQUENTIAL then Inr (i, b) else Random_key env flags b) = Inr (k, b1)"
    and b1: "m_gen b1 = m_gen b"
    using r by (cases order) (auto simp: Random_key_def Let_def)
  obtain s e where se: "DB_Write env sync
      [(snprintf100 (fmt_0d 16 k),
        take (nat v) (drop (nat (if m_pos (m_gen b) + v \<le> int (length (m_data (m_gen b)))
                                  then m_pos (m_gen b) else 0)) (m_data (m_gen b))))]
      (engine b1) = (s, e)" by (cases "DB_Write env sync
      [(snprintf100 (fmt_0d 16 k),
        take (nat v) (drop (nat (if m_pos (m_gen b) + v \<le> int (length (m_data (m_gen b)))
                                  then m_pos (m_gen b) else 0)) (m_data (m_gen b))))]
      (engine b1)")
  with w [of sync _ "engine b1"] have s: "s = OK" by (metis fst_conv)
  show ?thesis
  proof (cases "m_pos (m_gen b) + v \<le> int (length (m_data (m_gen b)))")
    case True
    with g k b1 se s pos v show ?thesis
      by (simp add: Write_body_def slice_bytes_def Let_def log_call_def)
  next
    case False
    with g k b1 se s pos v show ?thesis
      by (simp add: Write_body_def slice_bytes_def Let_def log_call_def)
  qed
qed

lemma Write_loop_succeeds:
  "(\<And>sync batch e. fst (DB_Write env sync batch e) = OK) \<Longrightarrow>
   int (length (m_data (m_gen b))) \<le> 2 ^ 30 \<Longrightarrow>
   0 \<le> m_pos (m_gen b) \<Longrightarrow> m_pos (m_gen b) \<le> int (length (m_data (m_gen b))) \<Longrightarrow>
   0 \<le> v \<Longrightarrow> v < int (length (m_data (m_gen b))) \<Longrightarrow>
   (order = RANDOM \<longrightarrow> to_uint32 (FLAGS_num flags) \<noteq> 0) \<Longrightarrow>
     \<exists>b'. Write_loop env flags sync order v i n b = Inr b'"
proof (induction env flags sync order v i n b rule: Write_loop.induct)
  case (1 env flags sync order v i n b)
  show ?case
  proof (cases "i < n")
    case False
    then show ?thesis by (simp add: Write_loop_done)
  next
    case True
    from Write_body_succeeds [OF 1(2-8), of sync i] obtain b1 where
      b1: "Write_body env flags sync order v i b = Inr b1"
        "m_data (m_gen b1) = m_data (m_gen b)"
        "0 \<le> m_pos (m_gen b1)" "m_pos (m_gen b1) \<le> int (length (m_data (m_gen b)))" by blast
    from 1(1) [OF True b1(1) 1(2)] b1 1(3,6,7,8) True show ?thesis
      by (simp add: Write_loop_Inr)
  qed
qed

text \<open>When the engine accepts every open and every write, the phase \<^verbatim>\<open>fillseq\<close> of a
  harness with a generator reached from the constructed one, for values shorter than the
  buffer, ends without a fatal outcome.\<close>

lemma fillseq_completes:
  assumes "\<And>opts e. fst (DB_Open env opts e) = OK"
    and "\<And>sync batch e. fst (DB_Write env sync batch e) = OK"
    and "reachable_gen buf (m_gen b)" and "int (length buf) \<le> 2 ^ 30"
    and "0 \<le> FLAGS_value_size flags" and "FLAGS_value_size flags < int (length buf)"
  shows "\<exists>b'. Run_benchmark env flags ''fillseq'' b = Inr b'"
proof -
  from reachable_gen_inv [OF assms(3,4)]
  have inv: "m_data (m_gen b) = buf" "0 \<le> m_pos (m_gen b)" "m_pos (m_gen b) \<le> int (length buf)"
    by simp_all
  let ?b3 = "log_call Call_DestroyDB
      ((if m_db (Start env b)
        then log_call Call_Delete ((Start env b)\<lparr>engine := DB_Delete env (engine (Start env b))\<rparr>)
        else Start env b)
        \<lparr>m_db := False,
          engine := DestroyDB env (engine (if m_db (Start env b)
            then log_call Call_Delete ((Start env b)\<lparr>engine := DB_Delete env (engine (Start env b))\<rparr>)
            else Start env b))\<rparr>)"
  have g3: "m_gen ?b3 = m_gen b" "\<not> m_db ?b3" by (simp_all add: log_call_def)
  obtain s e where se: "DB_Open env \<lparr>create_if_missing = True, max_open_files = 10000,
       write_buffer_size = FLAGS_write_buffer_size flags\<rparr> (engine ?b3) = (s, e)"
    by (cases "DB_Open env \<lparr>create_if_missing = True, max_open_files = 10000,
       write_buffer_size = FLAGS_write_buffer_size flags\<rparr> (engine ?b3)")
  with assms(1) [of _ "engine ?b3"] have "s = OK" by (metis fst_conv)
  with se g3 obtain b4 where o: "Open env flags ?b3 = Inr b4" and g4: "m_gen b4 = m_gen b"
    by (simp add: Open_def Let_def log_call_def)
  then have f: "Write_fresh env flags (Start env b) = Inr (Start env b4)"
    by (simp add: Write_fresh_def Let_def)
  let ?b6 = "if m_num b \<noteq> m_num (Start env b4)
             then (Start env b4)\<lparr>m_message := snprintf100 (''('' @ fmt_d (m_num b) @ '' ops)'')\<rparr>
             else Start env b4"
  from g4 have g6: "m_gen ?b6 = m_gen b" by simp
  from Write_loop_succeeds [of env ?b6 "FLAGS_value_size flags" SEQUENTIAL flags False 0 "m_num b"]
    assms(2,4,5,6) inv g6
  obtain b' where "Write_loop env flags False SEQUENTIAL (FLAGS_value_size flags) 0 (m_num b) ?b6 = Inr b'"
    by auto
  with f show ?thesis by (simp add: Run_benchmark_fillseq Write_def Let_def)
qed

subsection \<open>The entry count of a run\<close>

lemma Write_body_num: "m_num (final_state (Write_body env flags sync order v i b)) = m_num b"
  by (cases order)
     (auto simp: Write_body_def Random_key_def Let_def log_call_def print_err_def
        split: if_splits sum.splits prod.splits option.splits)

lemma Write_loop_num: "m_num (final_state (Write_loop env flags sync order v i n b)) = m_num b"
proof (induction env flags sync order v i n b rule: Write_loop.induct)
  case (1 env flags sync order v i n b)
  show ?case
  proof (cases "i < n")
    case False
    then show ?thesis by (simp add: Write_loop_done)
  next
    case True
    show ?thesis
    proof (cases "Write_body env flags sync order v i b")
      case (Inl f)
      with True Write_body_num [of env flags sync order v i b] show ?thesis
        by (simp add: Write_loop_Inl)
    next
      case (Inr b1)
      with True 1 [OF True Inr] Write_body_num [of env flags sync order v i b] show ?thesis
        by (simp add: Write_loop_Inr)
    qed
  qed
qed

lemma Open_num: "m_num (final_state (Open env flags b)) = m_num b"
  by (auto simp: Open_def Let_def log_call_def print_err_def split: prod.splits)

lemma Write_fresh_num: "m_num (final_state (Write_fresh env flags b)) = m_num b"
proof -
  define b3 where "b3 =
    log_call Call_DestroyDB
      ((if m_db b then log_call Call_Delete (b\<lparr>engine := DB_Delete env (engine b)\<rparr>) else b)
        \<lparr>m_db := False, engine := DestroyDB env (engine (if m_db b then log_call Call_Delete (b\<lparr>engine := DB_Delete env (engine b)\<rparr>) else b))\<rparr>)"
  have n3: "m_num b3 = m_num b" by (simp add: b3_def log_call_def)
  have "Write_fresh env flags b =
      (case Open env flags b3 of Inl f \<Rightarrow> Inl f | Inr b4 \<Rightarrow> Inr (Start env b4))"
    by (simp add: Write_fresh_def Let_def b3_def)
  with Open_num [of env flags b3] n3 show ?thesis
    by (cases "Open env flags b3") (auto simp: final_state_def split: prod.splits)
qed

lemma Write_num: "m_num (final_state (Write env flags sync order state n v b)) = m_num b"
proof (cases "state = FRESH")
  case False
  then show ?thesis by (simp add: Write_def Let_def Write_loop_num)
next
  case True
  show ?thesis
  proof (cases "Write_fresh env flags b")
    case (Inl f)
    with True Write_fresh_num [of env flags b] show ?thesis by (simp add: Write_def)
  next
    case (Inr b5)
    with True Write_fresh_num [of env flags b] show ?thesis
      by (simp add: Write_def Let_def Write_loop_num)
  qed
qed

lemma Random_key_num:
  "Random_key env flags b = Inl (f, bf) \<Longrightarrow> m_num bf = m_num b"
  "Random_key env flags b = Inr (k, b1) \<Longrightarrow> m_num b1 = m_num b"
  by (auto simp: Random_key_def Let_def split: if_splits)

lemma ReadRandom_loop_num: "m_num (final_state (ReadRandom_loop env flags i n b)) = m_num b"
proof (induction env flags i n b rule: ReadRandom_loop.induct)
  case (1 env flags i n b)
  show ?case
  proof (cases "i < n")
    case False
    then show ?thesis by (subst ReadRandom_loop.simps) simp
  next
    case True
    show ?thesis
    proof (cases "Random_key env flags b")
      case (Inl fb)
      obtain f bf where fb: "fb = (f, bf)" by (cases fb)
      from Random_key_num(1) [OF Inl [unfolded fb]] True Inl fb show ?thesis
        by (subst ReadRandom_loop.simps) simp
    next
      case (Inr kb)
      obtain k b1 where kb: "kb = (k, b1)" by (cases kb)
      from 1 [OF True Inr [unfolded kb] refl refl] Random_key_num(2) [OF Inr [unfolded kb]]
        True Inr kb
      show ?thesis by (subst ReadRandom_loop.simps) (simp add: Let_def log_call_def)
    qed
  qed
qed

lemma Compact_num: "m_num (Compact env b) = m_num b"
  by (simp add: Compact_def Compact_scan_result Compact_ranges_result log_call_def Let_def)

lemma HeapProfile_num: "m_num (HeapProfile env b) = m_num b"
  by (simp add: HeapProfile_def log_call_def Let_def)

text \<open>Nothing assigns \<^verbatim>\<open>num_\<close> after the constructor: it is \<^verbatim>\<open>FLAGS_num\<close> in every phase of
  a run of the constructed harness.\<close>

lemma Run_benchmark_num: "m_num (final_state (Run_benchmark env flags name b)) = m_num b"
proof -
  have "m_num (final_state (case r of Inl f \<Rightarrow> Inl f | Inr b1 \<Rightarrow> Inr (Stop env flags name b1))) =
        m_num (final_state r)" for r :: "fatal \<times> 'a Benchmark + 'a Benchmark"
    by (cases r) (auto simp: final_state_def)
  then show ?thesis
    using Write_num [of env flags _ _ _ _ _ "Start env b"]
      ReadRandom_loop_num [of env flags 0 "m_num b" "Start env b"]
    by (simp add: Run_benchmark_def Let_def ReadRandom_def ReadSequential_calls
        ReadReverse_calls Compact_num HeapProfile_num print_err_def)
qed

lemma Run_loop_num: "m_num (final_state (Run_loop env flags benchmarks b)) = m_num b"
proof (induction env flags benchmarks b rule: Run_loop.induct)
  case (1 env flags b)
  show ?case by (simp add: Run_loop.simps)
next
  case (2 env flags benchmarks b)
  show ?case
  proof (cases "Run_benchmark env flags (fst (next_benchmark benchmarks)) b")
    case (Inl f)
    with Run_benchmark_num [of env flags "fst (next_benchmark benchmarks)" b]
    show ?thesis by (simp add: Run_loop.simps)
  next
    case (Inr b1)
    with Run_benchmark_num [of env flags "fst (next_benchmark benchmarks)" b] 2 [OF Inr]
    show ?thesis by (simp add: Run_loop.simps)
  qed
qed

lemma Benchmark_init_num: "m_num (Benchmark_init env flags buf e) = FLAGS_num flags"
  by (simp add: Benchmark_init_def)

subsection \<open>The store of a run and the sequential read phases\<close>

text \<open>What the contract of the engine gives for one call.\<close>

lemma contract_destroy:
  assumes "engine_contract I env"
  shows "I (DestroyDB env e)" and "store_keys env (DestroyDB env e) = []"
proof -
  from assms have "\<forall>e. I (DestroyDB env e) \<and> DB_NewIterator env (DestroyDB env e) = []"
    unfolding engine_contract_def by (elim conjE)
  then show "I (DestroyDB env e)" and "store_keys env (DestroyDB env e) = []"
    by (simp_all add: store_keys_def)
qed

lemma contract_distinct:
  assumes "engine_contract I env" and "I e"
  shows "distinct (store_keys env e)"
proof -
  from assms(1) have "\<forall>e. I e \<longrightarrow> distinct (store_keys env e)"
    unfolding engine_contract_def by (elim conjE)
  with assms(2) show ?thesis by simp
qed

lemma contract_open:
  assumes "engine_contract I env" and "I e" and "DB_Open env opts e = (s, e')"
  shows "I e'" and "set (store_keys env e') \<subseteq> set (store_keys env e)"
proof -
  from assms(1) have "\<forall>e opts. I e \<longrightarrow>
           I (snd (DB_Open env opts e))
         \<and> set (store_keys env (snd (DB_Open env opts e))) \<subseteq> set (store_keys env e)"
    unfolding engine_contract_def by (elim conjE)
  from this [rule_format, OF assms(2), of opts] assms(3)
  show "I e'" and "set (store_keys env e') \<subseteq> set (store_keys env e)" by simp_all
qed

lemma contract_write:
  assumes "engine_contract I env" and "I e" and "DB_Write env sync batch e = (s, e')"
  shows "I e'" and "set (store_keys env e') \<subseteq> set (store_keys env e) \<union> fst ` set batch"
proof -
  from assms(1) have "\<forall>e sync batch. I e \<longrightarrow>
           I (snd (DB_Write env sync batch e))
         \<and> set (store_keys env (snd (DB_Write env sync batch e)))
             \<subseteq> set (store_keys env e) \<union> fst ` set batch"
    unfolding engine_contract_def by (elim conjE)
  from this [rule_format, OF assms(2), of sync batch] assms(3)
  show "I e'" and "set (store_keys env e') \<subseteq> set (store_keys env e) \<union> fst ` set batch"
    by simp_all
qed

lemma contract_compact_memtable:
  assumes "engine_contract I env" and "I e"
  shows "I (TEST_CompactMemTable env e)"
    and "set (store_keys env (TEST_CompactMemTable env e)) \<subseteq> set (store_keys env e)"
proof -
  from assms(1) have "\<forall>e. I e \<longrightarrow>
           I (TEST_CompactMemTable env e)
         \<and> set (store_keys env (TEST_CompactMemTable env e)) \<subseteq> set (store_keys env e)"
    unfolding engine_contract_def by (elim conjE)
  from this [rule_format, OF assms(2)]
  show "I (TEST_CompactMemTable env e)"
    and "set (store_keys env (TEST_CompactMemTable env e)) \<subseteq> set (store_keys env e)"
    by simp_all
qed

lemma contract_compact_range:
  assumes "engine_contract I env" and "I e"
  shows "I (TEST_CompactRange env level start limit e)"
    and "set (store_keys env (TEST_CompactRange env level start limit e))
           \<subseteq> set (store_keys env e)"
proof -
  from assms(1) have "\<forall>e level start limit. I e \<longrightarrow>
           I (TEST_CompactRange env level start limit e)
         \<and> set (store_keys env (TEST_CompactRange env level start limit e))
             \<subseteq> set (store_keys env e)"
    unfolding engine_contract_def by (elim conjE)
  from this [rule_format, OF assms(2), of level start limit]
  show "I (TEST_CompactRange env level start limit e)"
    and "set (store_keys env (TEST_CompactRange env level start limit e))
           \<subseteq> set (store_keys env e)"
    by simp_all
qed

lemma store_within_Start: "store_within I env (Start env b) = store_within I env b"
  by (simp add: store_within_def)

lemma store_within_Stop: "store_within I env (Stop env flags name b) = store_within I env b"
  by (simp add: store_within_def)

lemma store_within_length:
  assumes "engine_contract I env" and "store_within I env b"
  shows "length (DB_NewIterator env (engine b)) \<le> nat (m_num b)"
proof -
  from assms have d: "distinct (store_keys env (engine b))"
    by (simp add: store_within_def contract_distinct)
  have "length (DB_NewIterator env (engine b)) = length (store_keys env (engine b))"
    by (simp add: store_keys_def)
  also from d have "\<dots> = card (set (store_keys env (engine b)))"
    by (simp add: distinct_card)
  also from assms(2) have "\<dots> \<le> card (fmt_0d 16 ` {0..<m_num b})"
    by (intro card_mono) (simp_all add: store_within_def)
  also have "\<dots> \<le> card {0..<m_num b}" by (rule card_image_le) simp
  finally show ?thesis by simp
qed

lemma Open_store:
  assumes "engine_contract I env" and "store_within I env b" and "Open env flags b = Inr b'"
  shows "store_within I env b'"
proof -
  define opts where "opts = \<lparr>create_if_missing = True, max_open_files = 10000,
                       write_buffer_size = FLAGS_write_buffer_size flags\<rparr>"
  obtain s e where o: "DB_Open env opts (engine b) = (s, e)" by (cases "DB_Open env opts (engine b)")
  from assms(3) o have e: "engine b' = e" and n: "m_num b' = m_num b"
    by (auto simp: Open_def Let_def log_call_def opts_def split: if_splits)
  from assms(2) have "I (engine b)" by (simp add: store_within_def)
  from contract_open [OF assms(1) this o] assms(2) e n show ?thesis
    by (auto simp: store_within_def)
qed

lemma Write_fresh_store:
  assumes "engine_contract I env" and "Write_fresh env flags b = Inr b'"
  shows "store_within I env b'"
proof -
  define b3 where "b3 =
    log_call Call_DestroyDB
      ((if m_db b then log_call Call_Delete (b\<lparr>engine := DB_Delete env (engine b)\<rparr>) else b)
        \<lparr>m_db := False, engine := DestroyDB env (engine (if m_db b then log_call Call_Delete (b\<lparr>engine := DB_Delete env (engine b)\<rparr>) else b))\<rparr>)"
  from assms(2) obtain b4 where o: "Open env flags b3 = Inr b4" and b': "b' = Start env b4"
    by (auto simp: Write_fresh_def Let_def b3_def split: sum.splits)
  have "store_within I env b3"
    by (simp add: b3_def log_call_def store_within_def contract_destroy [OF assms(1)])
  from Open_store [OF assms(1) this o] b' show ?thesis
    by (simp add: store_within_Start)
qed

lemma Write_body_engine:
  assumes "Write_body env flags sync order v i b = Inr b'"
  obtains k val s where
    "order = SEQUENTIAL \<longrightarrow> k = i"
    "order = RANDOM \<longrightarrow> to_uint32 (FLAGS_num flags) \<noteq> 0 \<and>
       k = to_int32 ((int (Random_Next env (m_rand b)) mod 2 ^ 32) mod to_uint32 (FLAGS_num flags))"
    "DB_Write env sync [(snprintf100 (fmt_0d 16 k), val)] (engine b) = (s, engine b')"
    "m_num b' = m_num b"
  using assms
  by (cases order)
     (auto simp: Write_body_def Random_key_def Let_def log_call_def print_err_def ok_iff
        split: if_splits sum.splits prod.splits option.splits)

lemma in_int_between: "0 \<le> i \<Longrightarrow> i < n \<Longrightarrow> in_int n \<Longrightarrow> in_int i"
  by (simp add: in_int_def INT_MIN_def INT_MAX_def)

lemma Write_body_store:
  assumes c: "engine_contract I env" and w: "store_within I env b"
    and r: "Write_body env flags sync order v i b = Inr b'"
    and s: "order = SEQUENTIAL \<longrightarrow> 0 \<le> i \<and> i < m_num b"
    and rnd: "order = RANDOM \<longrightarrow> 0 < FLAGS_num flags \<and> FLAGS_num flags = m_num b"
    and n: "in_int (m_num b)"
  shows "store_within I env b'"
proof -
  from r obtain k val s where
    ks: "order = SEQUENTIAL \<longrightarrow> k = i"
    and kr: "order = RANDOM \<longrightarrow> to_uint32 (FLAGS_num flags) \<noteq> 0 \<and>
       k = to_int32 ((int (Random_Next env (m_rand b)) mod 2 ^ 32) mod to_uint32 (FLAGS_num flags))"
    and wr: "DB_Write env sync [(snprintf100 (fmt_0d 16 k), val)] (engine b) = (s, engine b')"
    and nn: "m_num b' = m_num b"
    by (rule Write_body_engine)
  have k: "0 \<le> k \<and> k < m_num b"
  proof (cases order)
    case SEQUENTIAL
    with ks s show ?thesis by simp
  next
    case RANDOM
    with rnd n have "0 < FLAGS_num flags" "in_int (FLAGS_num flags)" "FLAGS_num flags = m_num b"
      by simp_all
    with random_key_range [of "FLAGS_num flags" "int (Random_Next env (m_rand b))"] kr RANDOM
    show ?thesis by simp
  qed
  with n have "in_int k" by (auto intro: in_int_between)
  then have key: "snprintf100 (fmt_0d 16 k) = fmt_0d 16 k" by (rule snprintf100_key)
  from w have i: "I (engine b)" by (simp add: store_within_def)
  from contract_write [OF c i wr] w k nn key show ?thesis
    by (auto simp: store_within_def)
qed

lemma Write_loop_store:
  "engine_contract I env \<Longrightarrow> store_within I env b \<Longrightarrow>
   Write_loop env flags sync order v i n b = Inr b' \<Longrightarrow>
   (order = SEQUENTIAL \<longrightarrow> 0 \<le> i \<and> n \<le> m_num b) \<Longrightarrow>
   (order = RANDOM \<longrightarrow> 0 < FLAGS_num flags \<and> FLAGS_num flags = m_num b) \<Longrightarrow>
   in_int (m_num b) \<Longrightarrow> store_within I env b'"
proof (induction env flags sync order v i n b rule: Write_loop.induct)
  case (1 env flags sync order v i n b)
  show ?case
  proof (cases "i < n")
    case False
    with 1(4) 1(3) show ?thesis by (simp add: Write_loop_done)
  next
    case True
    show ?thesis
    proof (cases "Write_body env flags sync order v i b")
      case (Inl f)
      with True 1(4) show ?thesis by (simp add: Write_loop_Inl)
    next
      case (Inr b1)
      from Write_body_num [of env flags sync order v i b] Inr have n1: "m_num b1 = m_num b"
        by (simp add: final_state_def)
      from 1(5) True have s: "order = SEQUENTIAL \<longrightarrow> 0 \<le> i \<and> i < m_num b" by auto
      have w1: "store_within I env b1"
        by (rule Write_body_store [OF 1(2) 1(3) Inr s 1(6) 1(7)])
      from True Inr 1(4) have l: "Write_loop env flags sync order v (i + 1) n b1 = Inr b'"
        by (simp add: Write_loop_Inr)
      show ?thesis
        by (rule 1(1) [OF True Inr 1(2) w1 l]) (use 1(5) 1(6) 1(7) n1 in auto)
    qed
  qed
qed

lemma Write_store:
  assumes c: "engine_contract I env" and w: "store_within I env b"
    and r: "Write env flags sync order state n v b = Inr b'"
    and s: "order = SEQUENTIAL \<longrightarrow> n \<le> m_num b"
    and rnd: "order = RANDOM \<longrightarrow> 0 < n \<longrightarrow> 0 < FLAGS_num flags \<and> FLAGS_num flags = m_num b"
    and i: "in_int (m_num b)"
  shows "store_within I env b'"
proof -
  obtain b6 where l: "Write_loop env flags sync order v 0 n b6 = Inr b'"
    and n6: "m_num b6 = m_num b" and w6: "store_within I env b6"
  proof (cases "state = FRESH")
    case True
    with r obtain b5 where f: "Write_fresh env flags b = Inr b5"
      and l: "Write_loop env flags sync order v 0 n
                (if n \<noteq> m_num b5
                 then b5\<lparr>m_message := snprintf100 (''('' @ fmt_d n @ '' ops)'')\<rparr> else b5) = Inr b'"
      by (auto simp: Write_def Let_def split: sum.splits)
    from Write_fresh_num [of env flags b] f have n5: "m_num b5 = m_num b"
      by (simp add: final_state_def)
    from Write_fresh_store [OF c f] have "store_within I env b5" .
    with n5 l that show ?thesis by (auto simp: store_within_def split: if_splits)
  next
    case False
    with r have l: "Write_loop env flags sync order v 0 n
                (if n \<noteq> m_num b
                 then b\<lparr>m_message := snprintf100 (''('' @ fmt_d n @ '' ops)'')\<rparr> else b) = Inr b'"
      by (auto simp: Write_def Let_def)
    with w that show ?thesis by (auto simp: store_within_def split: if_splits)
  qed
  show ?thesis
  proof (cases "0 < n")
    case False
    with l have "b' = b6" by (simp add: Write_loop_done)
    with w6 show ?thesis by simp
  next
    case True
    show ?thesis
      by (rule Write_loop_store [OF c w6 l]) (use s rnd i n6 True in auto)
  qed
qed

lemma Random_key_engine:
  "Random_key env flags b = Inl (f, bf) \<Longrightarrow> engine bf = engine b"
  "Random_key env flags b = Inr (k, b1) \<Longrightarrow> engine b1 = engine b"
  by (auto simp: Random_key_def Let_def split: if_splits)

lemma ReadRandom_loop_engine:
  "engine (final_state (ReadRandom_loop env flags i n b)) = engine b"
proof (induction env flags i n b rule: ReadRandom_loop.induct)
  case (1 env flags i n b)
  show ?case
  proof (cases "i < n")
    case False
    then show ?thesis by (subst ReadRandom_loop.simps) simp
  next
    case True
    show ?thesis
    proof (cases "Random_key env flags b")
      case (Inl fb)
      obtain f bf where fb: "fb = (f, bf)" by (cases fb)
      from Random_key_engine(1) [OF Inl [unfolded fb]] True Inl fb show ?thesis
        by (subst ReadRandom_loop.simps) simp
    next
      case (Inr kb)
      obtain k b1 where kb: "kb = (k, b1)" by (cases kb)
      from 1 [OF True Inr [unfolded kb] refl refl] Random_key_engine(2) [OF Inr [unfolded kb]]
        True Inr kb
      show ?thesis by (subst ReadRandom_loop.simps) (simp add: Let_def log_call_def)
    qed
  qed
qed

lemma compact_ranges_store:
  "engine_contract I env \<Longrightarrow> I e \<Longrightarrow>
   I (fold (\<lambda>l. TEST_CompactRange env l start limit) ls e)
   \<and> set (store_keys env (fold (\<lambda>l. TEST_CompactRange env l start limit) ls e))
       \<subseteq> set (store_keys env e)"
proof (induction ls arbitrary: e)
  case Nil
  then show ?case by simp
next
  case (Cons l ls)
  from contract_compact_range [OF Cons(2,3), of l start limit]
  have i: "I (TEST_CompactRange env l start limit e)"
    and k: "set (store_keys env (TEST_CompactRange env l start limit e))
              \<subseteq> set (store_keys env e)" .
  from Cons(1) [OF Cons(2) i] k show ?case by auto
qed

lemma Compact_store:
  assumes "engine_contract I env" and "store_within I env b"
  shows "store_within I env (Compact env b)"
proof -
  define e1 where "e1 = TEST_CompactMemTable env (engine b)"
  define ls where "ls = [0..last (1 # filter (has_files env e1) [1..kNumLevels env - 1]) - 1]"
  from assms(2) have i: "I (engine b)"
    and k: "set (store_keys env (engine b)) \<subseteq> fmt_0d 16 ` {0..<m_num b}"
    by (simp_all add: store_within_def)
  have e: "engine (Compact env b) = fold (\<lambda>l. TEST_CompactRange env l [] ''~'') ls e1"
    unfolding ls_def e1_def
    by (simp add: Compact_def Compact_scan_result Compact_ranges_result log_call_def Let_def)
  from contract_compact_memtable [OF assms(1) i]
  have i1: "I e1" and k1: "set (store_keys env e1) \<subseteq> set (store_keys env (engine b))"
    by (simp_all add: e1_def)
  from compact_ranges_store [OF assms(1) i1, of "[]" "''~''" ls]
  have i2: "I (fold (\<lambda>l. TEST_CompactRange env l [] ''~'') ls e1)"
    and k2: "set (store_keys env (fold (\<lambda>l. TEST_CompactRange env l [] ''~'') ls e1))
               \<subseteq> set (store_keys env e1)"
    by simp_all
  from k2 k1 k have "set (store_keys env (fold (\<lambda>l. TEST_CompactRange env l [] ''~'') ls e1))
               \<subseteq> fmt_0d 16 ` {0..<m_num b}"
    by (rule subset_trans [OF subset_trans])
  with i2 show ?thesis
    unfolding store_within_def e Compact_num by simp
qed

lemma HeapProfile_engine: "engine (HeapProfile env b) = engine b"
  by (simp add: HeapProfile_def log_call_def Let_def)

lemma c_div_pos: "0 < c_div a d \<Longrightarrow> 0 < d \<Longrightarrow> 0 < a"
  using c_div_nonpos [of a d] by linarith

lemma dispatch_cases:
  assumes "(if c1 then x1 else if c2 then x2 else if c3 then x3 else if c4 then x4
            else if c5 then x5 else if c6 then x6 else if c7 then x7 else if c8 then x8
            else if c9 then x9 else if c10 then x10 else x11) = y"
  shows "x1 = y \<or> x2 = y \<or> x3 = y \<or> x4 = y \<or> x5 = y \<or> x6 = y \<or> x7 = y
         \<or> x8 = y \<or> x9 = y \<or> x10 = y \<or> x11 = y"
  using assms by (auto split: if_splits)

lemma Run_benchmark_store:
  assumes c: "engine_contract I env" and i: "in_int (FLAGS_num flags)"
    and n: "m_num b = FLAGS_num flags" and w: "store_within I env b"
    and r: "Run_benchmark env flags name b = Inr b'"
  shows "store_within I env b'"
proof -
  define b0 where "b0 = Start env b"
  have w0: "store_within I env b0" and n0: "m_num b0 = FLAGS_num flags"
    and i0: "in_int (m_num b0)"
    using w n i by (simp_all add: b0_def store_within_Start)
  have W: "store_within I env b1"
    if "Write env flags sync order state k v b0 = Inr b1"
      and "order = SEQUENTIAL \<longrightarrow> k = m_num b0"
      and "k = m_num b0 \<or> k = c_div (m_num b0) 100 \<or> k = c_div (m_num b0) 1000"
    for sync order state k v b1
  proof (rule Write_store [OF c w0 that(1) _ _ i0])
    from that(2) show "order = SEQUENTIAL \<longrightarrow> k \<le> m_num b0" by simp
    from that(3) n0 show "order = RANDOM \<longrightarrow> 0 < k \<longrightarrow> 0 < FLAGS_num flags \<and> FLAGS_num flags = m_num b0"
      by (auto dest: c_div_pos)
  qed
  from r obtain b1 where b': "b' = Stop env flags name b1" and
    r1: "(if name = ''fillseq'' then
               Write env flags False SEQUENTIAL FRESH (m_num b0) (FLAGS_value_size flags) b0
             else if name = ''fillrandom'' then
               Write env flags False RANDOM FRESH (m_num b0) (FLAGS_value_size flags) b0
             else if name = ''overwrite'' then
               Write env flags False RANDOM EXISTING (m_num b0) (FLAGS_value_size flags) b0
             else if name = ''fillsync'' then
               Write env flags True RANDOM FRESH (c_div (m_num b0) 100) (FLAGS_value_size flags) b0
             else if name = ''fill100K'' then
               Write env flags False RANDOM FRESH (c_div (m_num b0) 1000) (100 * 1000) b0
             else if name = ''readseq'' then Inr (ReadSequential env flags b0)
             else if name = ''readreverse'' then Inr (ReadReverse env flags b0)
             else if name = ''readrandom'' then ReadRandom env flags b0
             else if name = ''compact'' then Inr (Compact env b0)
             else if name = ''heapprofile'' then Inr (HeapProfile env b0)
             else Inr (print_err (Err_unknown name) b0)) = Inr b1"
    unfolding Run_benchmark_def Let_def b0_def [symmetric] by (auto split: sum.splits)
  from dispatch_cases [OF r1] have
    "Write env flags False SEQUENTIAL FRESH (m_num b0) (FLAGS_value_size flags) b0 = Inr b1
     \<or> Write env flags False RANDOM FRESH (m_num b0) (FLAGS_value_size flags) b0 = Inr b1
     \<or> Write env flags False RANDOM EXISTING (m_num b0) (FLAGS_value_size flags) b0 = Inr b1
     \<or> Write env flags True RANDOM FRESH (c_div (m_num b0) 100) (FLAGS_value_size flags) b0
         = Inr b1
     \<or> Write env flags False RANDOM FRESH (c_div (m_num b0) 1000) (100 * 1000) b0 = Inr b1
     \<or> ReadSequential env flags b0 = b1
     \<or> ReadReverse env flags b0 = b1
     \<or> ReadRandom env flags b0 = Inr b1
     \<or> Compact env b0 = b1
     \<or> HeapProfile env b0 = b1
     \<or> print_err (Err_unknown name) b0 = b1"
    by simp
  then have "store_within I env b1"
  proof (elim disjE, goal_cases)
    case 1
    then show ?case by (rule W) simp_all
  next
    case 2
    then show ?case by (rule W) simp_all
  next
    case 3
    then show ?case by (rule W) simp_all
  next
    case 4
    then show ?case by (rule W) simp_all
  next
    case 5
    then show ?case by (rule W) simp_all
  next
    case 6
    with w0 show ?case by (auto simp: store_within_def ReadSequential_calls)
  next
    case 7
    with w0 show ?case by (auto simp: store_within_def ReadReverse_calls)
  next
    case 8
    with ReadRandom_loop_engine [of env flags 0 "m_num b0" b0]
      ReadRandom_loop_num [of env flags 0 "m_num b0" b0] w0
    show ?case by (simp add: ReadRandom_def store_within_def final_state_def)
  next
    case 9
    with Compact_store [OF c w0] show ?case by simp
  next
    case 10
    with w0 show ?case by (auto simp: store_within_def HeapProfile_engine HeapProfile_num)
  next
    case 11
    with w0 show ?case by (auto simp: store_within_def print_err_def)
  qed
  with b' show ?thesis by (simp add: store_within_Stop)
qed

lemma reachable_bench_store:
  assumes "engine_contract I env" and "in_int (FLAGS_num flags)"
    and "reachable_bench env flags buf e b"
  shows "store_within I env b \<and> m_num b = FLAGS_num flags"
  using assms(3)
proof (induction rule: reachable_bench.induct)
  case (opened b)
  have "store_within I env (Benchmark_init env flags buf e)"
    by (simp add: store_within_def Benchmark_init_def contract_destroy [OF assms(1)])
  from Open_store [OF assms(1) this opened] Open_num [of env flags "Benchmark_init env flags buf e"]
    opened
  show ?case by (simp add: final_state_def Benchmark_init_def)
next
  case (phase b name b')
  from Run_benchmark_store [OF assms(1,2) _ _ phase(2)] phase(3)
    Run_benchmark_num [of env flags name b] phase(2)
  show ?case by (simp add: final_state_def)
qed

lemma Run_loop_reachable:
  "reachable_bench env flags buf e b \<Longrightarrow> Run_loop env flags benchmarks b = Inr b' \<Longrightarrow>
   reachable_bench env flags buf e b'"
proof (induction env flags benchmarks b rule: Run_loop.induct)
  case (1 env flags b)
  then show ?case by (simp add: Run_loop.simps)
next
  case (2 env flags benchmarks b)
  show ?case
  proof (cases "Run_benchmark env flags (fst (next_benchmark benchmarks)) b")
    case (Inl f)
    with 2(3) show ?thesis by (simp add: Run_loop.simps)
  next
    case (Inr b1)
    from reachable_bench.phase [OF 2(2) Inr] have "reachable_bench env flags buf e b1" .
    from 2(1) [OF Inr this] 2(3) Inr show ?thesis by (simp add: Run_loop.simps)
  qed
qed

text \<open>
  C5. In a run of the harness on an engine that meets the contract, with \<^verbatim>\<open>FLAGS_num\<close> in
  the range of \<^verbatim>\<open>int\<close>, take two states between phases that hold the same, unmodified
  store. The phase \<^verbatim>\<open>readseq\<close> in the one and the phase \<^verbatim>\<open>readreverse\<close> in the other
  visit the same set of keys, and the sequence of keys that \<^verbatim>\<open>readreverse\<close> visits is the
  reversal of the sequence that \<^verbatim>\<open>readseq\<close> visits. Each phase visits the keys in the
  order of its cursor, stopping after \<^verbatim>\<open>num_\<close> entries or when the cursor is exhausted,
  whichever comes first, and neither changes the store.
\<close>

theorem read_phases_reversed:
  assumes "engine_contract I env" and "in_int (FLAGS_num flags)"
    and "reachable_bench env flags buf e b1" and "reachable_bench env flags buf e b2"
    and "engine b2 = engine b1"
  shows "(let keys = map fst (DB_NewIterator env (engine b1));
              n = nat (FLAGS_num flags);
              r1 = final_state (Run_benchmark env flags ''readseq'' b1);
              r2 = final_state (Run_benchmark env flags ''readreverse'' b2);
              forward = visited_keys (new_calls b1 r1);
              backward = visited_keys (new_calls b2 r2)
          in forward = take n keys
           \<and> backward = take n (rev keys)
           \<and> backward = rev forward
           \<and> set backward = set forward
           \<and> engine r1 = engine b1 \<and> engine r2 = engine b2)"
proof -
  from reachable_bench_store [OF assms(1,2,3)] reachable_bench_store [OF assms(1,2,4)]
  have w: "store_within I env b1" and n: "m_num b1 = FLAGS_num flags" "m_num b2 = FLAGS_num flags"
    by simp_all
  from store_within_length [OF assms(1) w] n
  have l: "length (DB_NewIterator env (engine b1)) \<le> nat (FLAGS_num flags)" by simp
  have r1: "final_state (Run_benchmark env flags ''readseq'' b1) =
            Stop env flags ''readseq'' (ReadSequential env flags (Start env b1))"
    and r2: "final_state (Run_benchmark env flags ''readreverse'' b2) =
            Stop env flags ''readreverse'' (ReadReverse env flags (Start env b2))"
    by (simp_all add: Run_benchmark_def Let_def final_state_def)
  show ?thesis
    using l n assms(5)
    by (simp add: Let_def r1 r2 ReadSequential_calls ReadReverse_calls new_calls_def
        visited_keys_visit_calls take_map rev_map)
qed

text \<open>The example engine meets the contract: its states are the lists of entries whose
  keys strictly increase.\<close>

lemma store_put_keys: "fst ` set (store_put k v es) = insert k (fst ` set es)"
  by (induction k v es rule: store_put.induct) (simp_all add: insert_commute)

lemma store_put_sorted:
  "sorted_wrt (<) (map fst es) \<Longrightarrow> sorted_wrt (<) (map fst (store_put k v es))"
proof (induction es)
  case Nil
  then show ?case by simp
next
  case (Cons e es)
  obtain k' v' where e: "e = (k', v')" by (cases e)
  from Cons(2) have s: "sorted_wrt (<) (map fst es)" and l: "\<forall>x \<in> fst ` set es. k' < x"
    by (simp_all add: e)
  show ?case
  proof (cases "k = k'")
    case True
    with Cons(2) show ?thesis by (simp add: e)
  next
    case False
    show ?thesis
    proof (cases "k < k'")
      case True
      with Cons(2) l show ?thesis by (auto simp: e)
    next
      case g: False
      with False have "k' < k" by simp
      with False g l Cons(1) [OF s] show ?thesis
        by (simp add: e store_put_keys)
    qed
  qed
qed

lemma fold_store_put:
  "sorted_wrt (<) (map fst e) \<Longrightarrow>
   sorted_wrt (<) (map fst (fold (\<lambda>(k, v). store_put k v) batch e))
   \<and> fst ` set (fold (\<lambda>(k, v). store_put k v) batch e) \<subseteq> fst ` set e \<union> fst ` set batch"
proof (induction batch arbitrary: e)
  case Nil
  then show ?case by simp
next
  case (Cons p batch)
  obtain k v where p: "p = (k, v)" by (cases p)
  from Cons(1) [OF store_put_sorted [OF Cons(2), of k v]]
  show ?case by (auto simp: p store_put_keys)
qed

lemma strict_sorted_distinct: "sorted_wrt (<) (xs :: string list) \<Longrightarrow> distinct xs"
  by (simp add: strict_sorted_iff)

lemma mem_env_contract: "engine_contract (\<lambda>e. sorted_wrt (<) (map fst e)) mem_env"
  unfolding engine_contract_def store_keys_def
  by (simp add: mem_env_def fold_store_put strict_sorted_distinct)

lemma example_opened_run:
  "Open mem_env example_flags example_bench = Inr example_opened"
  by (simp add: example_opened_def run_defs example_defs Let_def)

lemma example_run_fillseq:
  "Run_benchmark mem_env example_flags ''fillseq'' example_opened = Inr example_run"
  by (simp add: example_run_def example_opened_def run_defs example_defs Let_def fmt_0d_examples
      less_char_def replicate_2)

lemma example_run_reachable:
  "reachable_bench mem_env example_flags example_buf [] example_run"
  by (rule reachable_bench.phase [OF reachable_bench.opened example_run_fillseq])
     (simp add: example_opened_run [unfolded example_bench_def])

lemma example_run_store:
  "engine example_run =
     [(''0000000000000000'', ''xx''), (''0000000000000001'', ''xx''),
      (''0000000000000002'', ''xx'')]"
  by (simp add: example_run_def example_opened_def run_defs example_defs Let_def fmt_0d_examples
      less_char_def replicate_2)

text \<open>After \<^verbatim>\<open>Open\<close> and \<^verbatim>\<open>fillseq\<close> with three entries, both phases visit the three
  keys, \<^verbatim>\<open>readreverse\<close> in the opposite order.\<close>

theorem read_phases_reversed_witness:
  "visited_keys (new_calls example_run
      (final_state (Run_benchmark mem_env example_flags ''readseq'' example_run)))
     = [''0000000000000000'', ''0000000000000001'', ''0000000000000002'']
   \<and> visited_keys (new_calls example_run
      (final_state (Run_benchmark mem_env example_flags ''readreverse'' example_run)))
     = [''0000000000000002'', ''0000000000000001'', ''0000000000000000'']"
proof -
  have i: "in_int (FLAGS_num example_flags)"
    by (simp add: example_flags_def in_int_def INT_MIN_def INT_MAX_def)
  from read_phases_reversed [OF mem_env_contract i example_run_reachable example_run_reachable refl]
  show ?thesis
    by (simp add: Let_def example_run_store mem_env_def example_flags_def)
qed

end
